theory Spec2Isabelle
  imports Main "HOL-Library.Word"
begin

section \<open>The SECD bytecode interpreter of src/runtime/secd.c\<close>

text \<open>
  The interpreter keeps three fixed-capacity segments (code, stack, dump), four registers
  (\<open>pc\<close>, \<open>sp\<close>, \<open>dp\<close>, \<open>env\<close>) and a heap of cells that hold environment nodes and
  closures. The header \<open>secd.h\<close> (types, opcode numbers, capacities, cell macros and the
  cell allocator) is not part of the sources at hand: its constants are parameters of the
  model (record \<open>config\<close>), its cell interface is modelled from the specification.
\<close>

subsection \<open>Values, cells and the heap\<close>

text \<open>
  Modelled from the spec: the type \<open>value_t\<close> of \<open>secd.h\<close>, one untagged machine word
  that holds either a signed integer or a pointer to a cell. Its width is the type
  parameter \<open>'v\<close>; its arithmetic is that of the machine, two's complement with
  wrap-around (C itself leaves the result of a signed overflow open). \<open>env_t\<close> and
  \<open>closure_t *\<close> are pointers, cast to and from \<open>value_t\<close> without change, so they are
  words of the same width. \<open>NULL\<close> is the word 0.
\<close>

type_synonym 'v value_t = "'v word"
type_synonym 'v env_t = "'v word"

definition NULL :: "'v::len word" where
  "NULL = 0"

text \<open>
  Modelled from the spec: the cell of \<open>secd.h\<close>. One pool of cells serves both record
  shapes: an environment node (element and next) and a closure (code address and
  environment). The four fields are kept apart, each read and written by its own macro.
\<close>

record 'a cell =
  elm :: 'a
  nxt :: 'a
  code_addr :: int
  cenv :: 'a

text \<open>
  The heap: the memory of the cells, addressed by pointer, and the number of cells
  handed out so far.
\<close>

record 'a heap =
  cells :: "'a \<Rightarrow> 'a cell"
  used :: nat

datatype assertion = Env_not_null | Sp_bounds | Dp_bounds | Pc_bounds

text \<open>
  The ways the process dies: an \<open>assert\<close> that fails (\<open>abort\<close>), the \<open>default\<close> case of
  the dispatch (\<open>exit(-1)\<close> after a diagnostic with the opcode and the program counter),
  a read through the \<open>NULL\<close> pointer, and the allocator running out of cells.
\<close>

datatype fault =
    Assertion_failed assertion
  | Invalid_opcode int int
  | Null_dereference
  | Heap_exhausted

subsection \<open>Opcodes, configuration and machine state\<close>

datatype opcode = LDC | LD | ADD | SUB | MUL | SEL | LDF | LDRF | AP | RTN | JOIN | HALT

text \<open>
  The constants of \<open>secd.h\<close>: the number of each opcode and the capacities of the
  segments and of the heap.
\<close>

record config =
  op_LDC :: int
  op_LD :: int
  op_ADD :: int
  op_SUB :: int
  op_MUL :: int
  op_SEL :: int
  op_LDF :: int
  op_LDRF :: int
  op_AP :: int
  op_RTN :: int
  op_JOIN :: int
  op_HALT :: int
  STACK_MAX :: int
  DUMP_MAX :: int
  CODE_MAX :: int
  HEAP_MAX :: nat

text \<open>A dump entry: a saved program counter and a saved environment.\<close>

record 'a dump_t =
  dpc :: int
  denv :: 'a

text \<open>
  The registers and the memory. The registers \<open>pc\<close>, \<open>sp\<close> and \<open>dp\<close> are C \<open>int\<close>s that
  can go below 0 (\<open>--sp\<close> at 0); they are checked into their ranges after every
  instruction and move by at most two within one, so they are unbounded integers here.
  C indexes an array with no check: an index outside the allocated block addresses the
  memory around it. Each segment is therefore a memory indexed by any integer, of which
  \<open>[0, MAX)\<close> is the allocated block, so that an access out of range stays visible as a
  read or write at that index.
\<close>

record 'a state =
  pc :: int
  sp :: int
  dp :: int
  env :: 'a
  stack :: "int \<Rightarrow> 'a"
  dump :: "int \<Rightarrow> 'a dump_t"
  heap :: "'a heap"

datatype 'a result = Return 'a | Fault fault

datatype 'a outcome = Continue "'a state" | Stop "'a result"

subsection \<open>The cell interface\<close>

text \<open>
  Modelled from the spec: \<open>alloc_cell\<close> of the external allocator, which hands out a
  fresh, uniquely addressable cell on demand, subject to its capacity. The cells are
  numbered from 1 (0 is \<open>NULL\<close>); a cell is handed out while fewer than \<open>heap_max\<close> cells
  are in use and its number fits a pointer.
\<close>

definition alloc_cell :: "nat \<Rightarrow> 'v::len word heap \<Rightarrow> fault + ('v word \<times> 'v word heap)" where
  "alloc_cell heap_max h =
     (if used h < heap_max \<and> Suc (used h) < 2 ^ LENGTH('v)
      then Inr (of_nat (Suc (used h)), h\<lparr>used := Suc (used h)\<rparr>)
      else Inl Heap_exhausted)"

text \<open>
  Modelled from the spec: the field macros of \<open>secd.h\<close>. A read through \<open>NULL\<close> is the
  fault \<open>Null_dereference\<close>; any other pointer reads the cell at that address. The
  interpreter writes only to cells it has just allocated.
\<close>

definition GET_ELM :: "'v::len word \<Rightarrow> 'v word heap \<Rightarrow> fault + 'v word" where
  "GET_ELM p h = (if p = NULL then Inl Null_dereference else Inr (elm (cells h p)))"

definition GET_NEXT :: "'v::len word \<Rightarrow> 'v word heap \<Rightarrow> fault + 'v word" where
  "GET_NEXT p h = (if p = NULL then Inl Null_dereference else Inr (nxt (cells h p)))"

definition GET_CODE :: "'v::len word \<Rightarrow> 'v word heap \<Rightarrow> fault + int" where
  "GET_CODE p h = (if p = NULL then Inl Null_dereference else Inr (code_addr (cells h p)))"

definition GET_ENV :: "'v::len word \<Rightarrow> 'v word heap \<Rightarrow> fault + 'v word" where
  "GET_ENV p h = (if p = NULL then Inl Null_dereference else Inr (cenv (cells h p)))"

definition SET_ELM :: "'v word \<Rightarrow> 'v word \<Rightarrow> 'v word heap \<Rightarrow> 'v word heap" where
  "SET_ELM p v h = h\<lparr>cells := (cells h)(p := (cells h p)\<lparr>elm := v\<rparr>)\<rparr>"

definition SET_NEXT :: "'v word \<Rightarrow> 'v word \<Rightarrow> 'v word heap \<Rightarrow> 'v word heap" where
  "SET_NEXT p e h = h\<lparr>cells := (cells h)(p := (cells h p)\<lparr>nxt := e\<rparr>)\<rparr>"

definition SET_CODE :: "'v word \<Rightarrow> int \<Rightarrow> 'v word heap \<Rightarrow> 'v word heap" where
  "SET_CODE p a h = h\<lparr>cells := (cells h)(p := (cells h p)\<lparr>code_addr := a\<rparr>)\<rparr>"

definition SET_ENV :: "'v word \<Rightarrow> 'v word \<Rightarrow> 'v word heap \<Rightarrow> 'v word heap" where
  "SET_ENV p e h = h\<lparr>cells := (cells h)(p := (cells h p)\<lparr>cenv := e\<rparr>)\<rparr>"

subsection \<open>Environments and closures\<close>

text \<open>\<open>extend\<close>: cons a value on to an environment, in a new cell.\<close>

definition extend :: "nat \<Rightarrow> 'v::len word \<Rightarrow> 'v word \<Rightarrow> 'v word heap \<Rightarrow> fault + ('v word \<times> 'v word heap)" where
  "extend heap_max v e h =
     (case alloc_cell heap_max h of
        Inl f \<Rightarrow> Inl f
      | Inr (nenv, h1) \<Rightarrow> Inr (nenv, SET_NEXT nenv e (SET_ELM nenv v h1)))"

text \<open>
  \<open>lookup\<close>: walk \<open>n\<close> links, asserting before each that the environment is not \<open>NULL\<close>,
  then read the element of the node reached. The index is a C \<open>int\<close>: for \<open>n \<le> 0\<close> the
  loop body never runs.
\<close>

function lookup :: "int \<Rightarrow> 'v::len word \<Rightarrow> 'v word heap \<Rightarrow> fault + 'v word" where
  "lookup n e h =
     (if n > 0 then
        (if e = NULL then Inl (Assertion_failed Env_not_null)
         else (case GET_NEXT e h of
                 Inl f \<Rightarrow> Inl f
               | Inr e' \<Rightarrow> lookup (n - 1) e' h))
      else GET_ELM e h)"
  by pat_completeness auto
termination
  by (relation "measure (\<lambda>(n, e, h). nat n)") auto

declare lookup.simps [simp del]

text \<open>\<open>mkclosure\<close>: a new cell holding a code address and an environment.\<close>

definition mkclosure :: "nat \<Rightarrow> int \<Rightarrow> 'v::len word \<Rightarrow> 'v word heap \<Rightarrow> fault + ('v word \<times> 'v word heap)" where
  "mkclosure heap_max a e h =
     (case alloc_cell heap_max h of
        Inl f \<Rightarrow> Inl f
      | Inr (ptr, h1) \<Rightarrow> Inr (ptr, SET_ENV ptr e (SET_CODE ptr a h1)))"

subsection \<open>The machine\<close>

text \<open>The case labels of the \<open>switch\<close>, in its order; \<open>None\<close> is the \<open>default\<close> case.\<close>

definition decode :: "config \<Rightarrow> int \<Rightarrow> opcode option" where
  "decode cfg w =
     (if w = op_LDC cfg then Some LDC
      else if w = op_LD cfg then Some LD
      else if w = op_ADD cfg then Some ADD
      else if w = op_SUB cfg then Some SUB
      else if w = op_MUL cfg then Some MUL
      else if w = op_SEL cfg then Some SEL
      else if w = op_LDF cfg then Some LDF
      else if w = op_LDRF cfg then Some LDRF
      else if w = op_AP cfg then Some AP
      else if w = op_RTN cfg then Some RTN
      else if w = op_JOIN cfg then Some JOIN
      else if w = op_HALT cfg then Some HALT
      else None)"

text \<open>A C compiler accepts the \<open>switch\<close> only if its case labels differ.\<close>

definition labels_distinct :: "config \<Rightarrow> bool" where
  "labels_distinct cfg =
     distinct [op_LDC cfg, op_LD cfg, op_ADD cfg, op_SUB cfg, op_MUL cfg, op_SEL cfg,
               op_LDF cfg, op_LDRF cfg, op_AP cfg, op_RTN cfg, op_JOIN cfg, op_HALT cfg]"

text \<open>
  The body of one case of the \<open>switch\<close>. The state passed in has \<open>pc\<close> already advanced
  past the opcode (\<open>code[pc++]\<close>).
\<close>

fun exec :: "config \<Rightarrow> (int \<Rightarrow> int) \<Rightarrow> opcode \<Rightarrow> 'v::len word state \<Rightarrow> 'v word outcome" where
  "exec cfg code LDC s =
     (let opa = of_int (code (pc s))
      in Continue (s\<lparr>pc := pc s + 1, stack := (stack s)(sp s := opa), sp := sp s + 1\<rparr>))"
| "exec cfg code LD s =
     (let t = code (pc s)
      in case lookup t (env s) (heap s) of
           Inl f \<Rightarrow> Stop (Fault f)
         | Inr v \<Rightarrow> Continue (s\<lparr>pc := pc s + 1, stack := (stack s)(sp s := v), sp := sp s + 1\<rparr>))"
| "exec cfg code ADD s =
     (let opa = stack s (sp s - 1); opb = stack s (sp s - 2)
      in Continue (s\<lparr>stack := (stack s)(sp s - 2 := opa + opb), sp := sp s - 1\<rparr>))"
| "exec cfg code SUB s =
     (let opa = stack s (sp s - 1); opb = stack s (sp s - 2)
      in Continue (s\<lparr>stack := (stack s)(sp s - 2 := opb - opa), sp := sp s - 1\<rparr>))"
| "exec cfg code MUL s =
     (let opa = stack s (sp s - 1); opb = stack s (sp s - 2)
      in Continue (s\<lparr>stack := (stack s)(sp s - 2 := opa * opb), sp := sp s - 1\<rparr>))"
| "exec cfg code SEL s =
     (let opa = stack s (sp s - 1)
      in Continue (s\<lparr>sp := sp s - 1,
                     dump := (dump s)(dp s := (dump s (dp s))\<lparr>dpc := pc s + 2\<rparr>),
                     dp := dp s + 1,
                     pc := (if opa = 0 then code (pc s) else code (pc s + 1))\<rparr>))"
| "exec cfg code LDF s =
     (let t = code (pc s)
      in case mkclosure (HEAP_MAX cfg) t (env s) (heap s) of
           Inl f \<Rightarrow> Stop (Fault f)
         | Inr (cptr, h) \<Rightarrow>
             Continue (s\<lparr>pc := pc s + 1, heap := h,
                         stack := (stack s)(sp s := cptr), sp := sp s + 1\<rparr>))"
| "exec cfg code LDRF s =
     (let t = code (pc s)
      in case extend (HEAP_MAX cfg) NULL (env s) (heap s) of
           Inl f \<Rightarrow> Stop (Fault f)
         | Inr (nenv, h1) \<Rightarrow>
            (case mkclosure (HEAP_MAX cfg) t nenv h1 of
               Inl f \<Rightarrow> Stop (Fault f)
             | Inr (cptr, h2) \<Rightarrow>
                 Continue (s\<lparr>pc := pc s + 1, heap := SET_ELM nenv cptr h2,
                             stack := (stack s)(sp s := cptr), sp := sp s + 1\<rparr>)))"
| "exec cfg code AP s =
     (let opa = stack s (sp s - 1); cptr = stack s (sp s - 2)
      in case GET_ENV cptr (heap s) of
           Inl f \<Rightarrow> Stop (Fault f)
         | Inr ce \<Rightarrow>
            (case extend (HEAP_MAX cfg) opa ce (heap s) of
               Inl f \<Rightarrow> Stop (Fault f)
             | Inr (nenv, h) \<Rightarrow>
                (case GET_CODE cptr h of
                   Inl f \<Rightarrow> Stop (Fault f)
                 | Inr a \<Rightarrow>
                     Continue (s\<lparr>sp := sp s - 2,
                                 dump := (dump s)(dp s := \<lparr>dpc = pc s, denv = env s\<rparr>),
                                 dp := dp s + 1, heap := h, env := nenv, pc := a\<rparr>))))"
| "exec cfg code RTN s =
     Continue (s\<lparr>dp := dp s - 1, pc := dpc (dump s (dp s - 1)), env := denv (dump s (dp s - 1))\<rparr>)"
| "exec cfg code JOIN s =
     Continue (s\<lparr>dp := dp s - 1, pc := dpc (dump s (dp s - 1))\<rparr>)"
| "exec cfg code HALT s = Stop (Return (stack s (sp s - 1)))"

text \<open>The three assertions after the \<open>switch\<close>, in their order.\<close>

definition check_bounds :: "config \<Rightarrow> 'v word state \<Rightarrow> 'v word outcome" where
  "check_bounds cfg s =
     (if \<not> (sp s \<ge> 0 \<and> sp s < STACK_MAX cfg) then Stop (Fault (Assertion_failed Sp_bounds))
      else if \<not> (dp s \<ge> 0 \<and> dp s < DUMP_MAX cfg) then Stop (Fault (Assertion_failed Dp_bounds))
      else if \<not> (pc s \<ge> 0 \<and> pc s < CODE_MAX cfg) then Stop (Fault (Assertion_failed Pc_bounds))
      else Continue s)"

text \<open>
  The \<open>switch\<close>: fetch the opcode, advance \<open>pc\<close>, run the case. The \<open>default\<close> case
  prints the opcode and the program counter as it then is, and exits.
\<close>

definition dispatch :: "config \<Rightarrow> (int \<Rightarrow> int) \<Rightarrow> 'v::len word state \<Rightarrow> 'v word outcome" where
  "dispatch cfg code s =
     (let opcode = code (pc s); s1 = s\<lparr>pc := pc s + 1\<rparr>
      in case decode cfg opcode of
           Some i \<Rightarrow> exec cfg code i s1
         | None \<Rightarrow> Stop (Fault (Invalid_opcode opcode (pc s1))))"

text \<open>One turn of the loop: the \<open>switch\<close>, then the assertions on the registers.\<close>

definition step :: "config \<Rightarrow> (int \<Rightarrow> int) \<Rightarrow> 'v::len word state \<Rightarrow> 'v word outcome" where
  "step cfg code s =
     (case dispatch cfg code s of
        Continue s' \<Rightarrow> check_bounds cfg s'
      | Stop r \<Rightarrow> Stop r)"

text \<open>The loop \<open>for (;;)\<close>, which may run forever: \<open>None\<close> is not returning.\<close>

partial_function (option) interp_loop ::
  "config \<Rightarrow> (int \<Rightarrow> int) \<Rightarrow> 'v::len word state \<Rightarrow> 'v word result option" where
  "interp_loop cfg code s =
     (case step cfg code s of
        Continue s' \<Rightarrow> interp_loop cfg code s'
      | Stop r \<Rightarrow> Some r)"

text \<open>
  \<open>interp\<close>: the loop from \<open>pc = 0\<close>, \<open>sp = 0\<close>, \<open>dp = 0\<close> and the empty environment.
  The segments come from \<open>malloc\<close>, the heap from \<open>init_heap\<close>: what they hold at the
  start is whatever the memory holds.
\<close>

definition interp ::
  "config \<Rightarrow> (int \<Rightarrow> int) \<Rightarrow> (int \<Rightarrow> 'v word) \<Rightarrow> (int \<Rightarrow> 'v word dump_t) \<Rightarrow> 'v::len word heap
     \<Rightarrow> 'v word result option" where
  "interp cfg code stk dmp hp =
     interp_loop cfg code
       \<lparr>pc = 0, sp = 0, dp = 0, env = NULL, stack = stk, dump = dmp, heap = hp\<rparr>"

subsection \<open>Well-formed environments\<close>

text \<open>
  The cells handed out so far are those numbered \<open>1\<close> to \<open>used\<close>. An environment of
  length \<open>k\<close> is a chain of \<open>k\<close> such cells that ends in \<open>NULL\<close>.
\<close>

definition allocated :: "'v::len word heap \<Rightarrow> 'v word \<Rightarrow> bool" where
  "allocated h p = (0 < unat p \<and> unat p \<le> used h)"

fun is_env :: "'v::len word heap \<Rightarrow> nat \<Rightarrow> 'v word \<Rightarrow> bool" where
  "is_env h 0 e = (e = NULL)"
| "is_env h (Suc k) e = (allocated h e \<and> is_env h k (nxt (cells h e)))"

text \<open>
  The registers are in bounds when the three assertions after the \<open>switch\<close> hold.
\<close>

definition in_bounds :: "config \<Rightarrow> 'a state \<Rightarrow> bool" where
  "in_bounds cfg s =
     (0 \<le> sp s \<and> sp s < STACK_MAX cfg \<and> 0 \<le> dp s \<and> dp s < DUMP_MAX cfg
        \<and> 0 \<le> pc s \<and> pc s < CODE_MAX cfg)"

text \<open>
  The integer operation of an arithmetic instruction on its operands \<open>a\<close> (popped first)
  and \<open>b\<close> (popped second), in unbounded integers.
\<close>

fun arith_int :: "opcode \<Rightarrow> int \<Rightarrow> int \<Rightarrow> int" where
  "arith_int ADD a b = a + b"
| "arith_int SUB a b = b - a"
| "arith_int MUL a b = a * b"
| "arith_int i a b = 0"

text \<open>A code segment that holds the words \<open>ws\<close> from index \<open>i\<close> on.\<close>

fun prog_at :: "(int \<Rightarrow> int) \<Rightarrow> int \<Rightarrow> int list \<Rightarrow> bool" where
  "prog_at code i [] = True"
| "prog_at code i (w # ws) = (code i = w \<and> prog_at code (i + 1) ws)"

subsection \<open>Runs of the machine\<close>

text \<open>\<open>n\<close> turns of the loop, stopping early when the loop ends.\<close>

fun run :: "config \<Rightarrow> (int \<Rightarrow> int) \<Rightarrow> nat \<Rightarrow> 'v::len word state \<Rightarrow> 'v word outcome" where
  "run cfg code 0 s = Continue s"
| "run cfg code (Suc n) s =
     (case step cfg code s of
        Continue s' \<Rightarrow> run cfg code n s'
      | Stop r \<Rightarrow> Stop r)"

text \<open>
  \<open>n\<close> turns of the loop can be taken from \<open>s\<close>, each from a state whose dump is deeper
  than \<open>d\<close>: the frames at the indices up to \<open>d\<close> are never the one popped.
\<close>

fun stays_above :: "config \<Rightarrow> (int \<Rightarrow> int) \<Rightarrow> int \<Rightarrow> nat \<Rightarrow> 'v::len word state \<Rightarrow> bool" where
  "stays_above cfg code d 0 s = True"
| "stays_above cfg code d (Suc n) s =
     (d < dp s \<and>
      (case step cfg code s of
         Continue s' \<Rightarrow> stays_above cfg code d n s'
       | Stop r \<Rightarrow> False))"

text \<open>
  Runs in which every \<open>SEL\<close> is closed by a \<open>JOIN\<close> and every \<open>AP\<close> by a \<open>RTN\<close>, the
  discipline of the dump that the compiler guarantees.
\<close>

inductive balanced :: "config \<Rightarrow> (int \<Rightarrow> int) \<Rightarrow> 'v::len word state \<Rightarrow> 'v word state \<Rightarrow> bool"
  for cfg :: config and code :: "int \<Rightarrow> int" where
  finished: "balanced cfg code s s"
| plain: "decode cfg (code (pc s)) = Some i \<Longrightarrow> i \<in> {LDC, LD, ADD, SUB, MUL, LDF, LDRF}
     \<Longrightarrow> step cfg code s = Continue s1 \<Longrightarrow> balanced cfg code s1 s2
     \<Longrightarrow> balanced cfg code s s2"
| branch: "decode cfg (code (pc s)) = Some SEL \<Longrightarrow> step cfg code s = Continue s1
     \<Longrightarrow> balanced cfg code s1 s2
     \<Longrightarrow> decode cfg (code (pc s2)) = Some JOIN \<Longrightarrow> step cfg code s2 = Continue s3
     \<Longrightarrow> balanced cfg code s3 s4
     \<Longrightarrow> balanced cfg code s s4"
| call: "decode cfg (code (pc s)) = Some AP \<Longrightarrow> step cfg code s = Continue s1
     \<Longrightarrow> balanced cfg code s1 s2
     \<Longrightarrow> decode cfg (code (pc s2)) = Some RTN \<Longrightarrow> step cfg code s2 = Continue s3
     \<Longrightarrow> balanced cfg code s3 s4
     \<Longrightarrow> balanced cfg code s s4"

code_pred balanced .

subsection \<open>Concrete machines\<close>

text \<open>A heap of 64-bit cells with one environment node in use, holding the value 7.\<close>

definition heap1 :: "64 word heap" where
  "heap1 = \<lparr>cells = (\<lambda>p. \<lparr>elm = 7, nxt = 0, code_addr = 0, cenv = 0\<rparr>), used = 1\<rparr>"

text \<open>
  A configuration for the examples. The numbering of the opcodes in \<open>secd.h\<close> is not
  known; any distinct numbers serve.
\<close>

definition cfg0 :: config where
  "cfg0 = \<lparr>op_LDC = 0, op_LD = 1, op_ADD = 2, op_SUB = 3, op_MUL = 4, op_SEL = 5,
            op_LDF = 6, op_LDRF = 7, op_AP = 8, op_RTN = 9, op_JOIN = 10, op_HALT = 11,
            STACK_MAX = 16, DUMP_MAX = 16, CODE_MAX = 64, HEAP_MAX = 16\<rparr>"

text \<open>A code segment loaded with a list of words, zero elsewhere.\<close>

definition code_of :: "int list \<Rightarrow> int \<Rightarrow> int" where
  "code_of ws i = (if 0 \<le> i \<and> i < int (length ws) then ws ! nat i else 0)"

text \<open>Zeroed memory for the stack, the dump and the heap, with 64-bit values.\<close>

definition stack0 :: "int \<Rightarrow> 64 word" where
  "stack0 = (\<lambda>i. 0)"

definition dump0 :: "int \<Rightarrow> 64 word dump_t" where
  "dump0 = (\<lambda>i. \<lparr>dpc = 0, denv = 0\<rparr>)"

definition heap0 :: "64 word heap" where
  "heap0 = \<lparr>cells = (\<lambda>p. \<lparr>elm = 0, nxt = 0, code_addr = 0, cenv = 0\<rparr>), used = 0\<rparr>"

text \<open>The state in which \<open>interp\<close> starts, on zeroed memory.\<close>

definition init_state :: "64 word state" where
  "init_state = \<lparr>pc = 0, sp = 0, dp = 0, env = NULL, stack = stack0, dump = dump0, heap = heap0\<rparr>"

text \<open>
  The state before the arithmetic instruction of \<open>LDC x; LDC y; op; HALT\<close>, with \<open>x\<close> and
  \<open>y\<close> on the stack, and the code segment with the opcode word \<open>w\<close> at position 4.
\<close>

definition binop_state :: "64 word \<Rightarrow> 64 word \<Rightarrow> 64 word state" where
  "binop_state x y = \<lparr>pc = 4, sp = 2, dp = 0, env = NULL,
                       stack = stack0(0 := x, 1 := y), dump = dump0, heap = heap0\<rparr>"

definition binop_code :: "int \<Rightarrow> int \<Rightarrow> int" where
  "binop_code w = code_of [0, 0, 0, 0, w, 11]"



text \<open>
  A conditional: \<open>LDC c; SEL 7 10; HALT\<close> with the branches \<open>LDC 1; JOIN\<close> at 7 and
  \<open>LDC 2; JOIN\<close> at 10; the state is the one before \<open>SEL\<close>, with the condition \<open>c\<close>
  on the stack.
\<close>

definition sel_code :: "int \<Rightarrow> int" where
  "sel_code = code_of [0, 0, 5, 7, 10, 11, 0, 0, 1, 10, 0, 2, 10]"

definition sel_state :: "64 word \<Rightarrow> 64 word state" where
  "sel_state c =
     \<lparr>pc = 2, sp = 1, dp = 0, env = NULL, stack = stack0(0 := c), dump = dump0, heap = heap0\<rparr>"

text \<open>
  The state before an \<open>LDRF\<close> at position 0, in the one-node environment of \<open>heap1\<close>.
\<close>

definition ldrf_state :: "64 word state" where
  "ldrf_state = \<lparr>pc = 0, sp = 0, dp = 0, env = 1, stack = stack0, dump = dump0, heap = heap1\<rparr>"

section \<open>Verified properties\<close>

subsection \<open>Unfolding the machine on concrete states\<close>

lemmas machine_defs = step_def dispatch_def decode_def check_bounds_def cfg0_def code_of_def
  extend_def mkclosure_def alloc_cell_def SET_ELM_def SET_NEXT_def SET_CODE_def SET_ENV_def
  GET_ENV_def GET_CODE_def GET_ELM_def GET_NEXT_def NULL_def

subsection \<open>Allocation and environments\<close>

lemma allocated_not_NULL: "allocated h p \<Longrightarrow> p \<noteq> NULL"
  by (auto simp: allocated_def NULL_def)

lemma unat_cell_number:
  "Suc n < 2 ^ LENGTH('v) \<Longrightarrow> unat (of_nat (Suc n) :: 'v::len word) = Suc n"
  by (simp only: unat_of_nat mod_less)

lemma alloc_cell_Inr:
  assumes "alloc_cell hm h = Inr (p, h')"
  shows "unat p = Suc (used h)" "cells h' = cells h" "used h' = Suc (used h)"
  using assms
  by (auto simp: alloc_cell_def unat_cell_number simp del: of_nat_Suc split: if_splits)

lemma alloc_cell_fresh:
  assumes "alloc_cell hm h = Inr (p, h')"
  shows "p \<noteq> NULL" "\<not> allocated h p" "allocated h' p"
  using alloc_cell_Inr [OF assms]
  by (auto simp: allocated_def NULL_def)

lemma allocated_mono:
  "used h \<le> used h' \<Longrightarrow> allocated h q \<Longrightarrow> allocated h' q"
  by (auto simp: allocated_def)

lemma extend_Inr:
  assumes "extend hm v e h = Inr (e', h')"
  shows "e' \<noteq> NULL" "\<not> allocated h e'" "allocated h' e'"
    "cells h' = (cells h)(e' := (cells h e')\<lparr>elm := v, nxt := e\<rparr>)"
    "used h' = Suc (used h)" "unat e' = Suc (used h)"
  using assms
  by (auto simp: extend_def SET_ELM_def SET_NEXT_def allocated_def
      dest: alloc_cell_Inr alloc_cell_fresh split: sum.splits)

lemma lookup_0: "lookup 0 e h = GET_ELM e h"
  by (simp add: lookup.simps)

lemma lookup_pos: "0 < n \<Longrightarrow> e \<noteq> NULL \<Longrightarrow> lookup n e h = lookup (n - 1) (nxt (cells h e)) h"
  by (subst lookup.simps) (simp add: GET_NEXT_def)

lemma lookup_frame:
  "is_env h k e \<Longrightarrow> \<forall>p. allocated h p \<longrightarrow> cells h' p = cells h p \<Longrightarrow> n < k
     \<Longrightarrow> lookup (int n) e h' = lookup (int n) e h"
proof (induction k arbitrary: n e)
  case 0
  then show ?case by simp
next
  case (Suc k)
  from Suc.prems have al: "allocated h e" and rest: "is_env h k (nxt (cells h e))" by simp_all
  from al have nn: "e \<noteq> NULL" by (rule allocated_not_NULL)
  from al Suc.prems(2) have same: "cells h' e = cells h e" by simp
  show ?case
  proof (cases n)
    case 0
    then show ?thesis using nn same by (simp add: lookup_0 GET_ELM_def)
  next
    case (Suc m)
    then have "m < k" using Suc.prems(3) by simp
    from Suc.IH [OF rest Suc.prems(2) this]
    show ?thesis using nn same Suc by (simp add: lookup_pos)
  qed
qed

lemma lookup_in_env:
  "is_env h k e \<Longrightarrow> n < k \<Longrightarrow> \<exists>v. lookup (int n) e h = Inr v"
proof (induction k arbitrary: n e)
  case 0
  then show ?case by simp
next
  case (Suc k)
  from Suc.prems have al: "allocated h e" and rest: "is_env h k (nxt (cells h e))" by simp_all
  from al have nn: "e \<noteq> NULL" by (rule allocated_not_NULL)
  show ?case
  proof (cases n)
    case 0
    then show ?thesis using nn by (simp add: lookup_0 GET_ELM_def)
  next
    case (Suc m)
    then have "m < k" using Suc.prems(2) by simp
    from Suc.IH [OF rest this]
    show ?thesis using nn Suc by (simp add: lookup_pos)
  qed
qed

lemma lookup_at_length:
  "is_env h k e \<Longrightarrow> lookup (int k) e h = Inl Null_dereference"
proof (induction k arbitrary: e)
  case 0
  then show ?case by (simp add: lookup_0 GET_ELM_def)
next
  case (Suc k)
  from Suc.prems have al: "allocated h e" and rest: "is_env h k (nxt (cells h e))" by simp_all
  from al have nn: "e \<noteq> NULL" by (rule allocated_not_NULL)
  show ?case using nn Suc.IH [OF rest] by (simp add: lookup_pos)
qed

lemma lookup_beyond_length:
  "is_env h k e \<Longrightarrow> k < n \<Longrightarrow> lookup (int n) e h = Inl (Assertion_failed Env_not_null)"
proof (induction k arbitrary: n e)
  case 0
  then show ?case by (subst lookup.simps) simp
next
  case (Suc k)
  from Suc.prems have al: "allocated h e" and rest: "is_env h k (nxt (cells h e))" by simp_all
  from al have nn: "e \<noteq> NULL" by (rule allocated_not_NULL)
  from Suc.prems obtain m where n: "n = Suc m" and "k < m" by (cases n) auto
  show ?case using nn Suc.IH [OF rest \<open>k < m\<close>] n by (simp add: lookup_pos)
qed

lemma is_env_frame:
  "is_env h k e \<Longrightarrow> \<forall>p. allocated h p \<longrightarrow> cells h' p = cells h p \<Longrightarrow> used h \<le> used h'
     \<Longrightarrow> is_env h' k e"
proof (induction k arbitrary: e)
  case 0
  then show ?case by simp
next
  case (Suc k)
  from Suc.prems have al: "allocated h e" and rest: "is_env h k (nxt (cells h e))" by simp_all
  from al Suc.prems(2) have same: "cells h' e = cells h e" by simp
  from al Suc.prems(3) have "allocated h' e" by (simp add: allocated_mono)
  then show ?case using Suc.IH [OF rest Suc.prems(2,3)] same by simp
qed

lemma extend_lookup_Inr:
  assumes ext: "extend hm v e h = Inr (e', h')"
  shows "lookup 0 e' h' = Inr v
       \<and> (is_env h k e \<and> n < k \<longrightarrow>
            lookup (int n + 1) e' h' = lookup (int n) e h \<and> (\<exists>x. lookup (int n) e h = Inr x))
       \<and> (\<forall>p. p \<noteq> e' \<longrightarrow> cells h' p = cells h p)
       \<and> \<not> allocated h e'
       \<and> (is_env h k e \<longrightarrow> is_env h' k e \<and> is_env h' (Suc k) e')"
proof -
  note facts = extend_Inr [OF ext]
  have nn: "e' \<noteq> NULL" by (rule facts(1))
  have cs: "cells h' = (cells h)(e' := (cells h e')\<lparr>elm := v, nxt := e\<rparr>)" by (rule facts(4))
  have first: "lookup 0 e' h' = Inr v"
    using nn cs by (simp add: lookup_0 GET_ELM_def)
  have others: "\<forall>p. p \<noteq> e' \<longrightarrow> cells h' p = cells h p"
    using cs by simp
  have fresh: "\<not> allocated h e'" by (rule facts(2))
  have frame: "\<forall>p. allocated h p \<longrightarrow> cells h' p = cells h p"
    using others fresh by auto
  have tail: "lookup (int n + 1) e' h' = lookup (int n) e h" if "is_env h k e" "n < k"
  proof -
    have "lookup (int n + 1) e' h' = lookup (int n) e h'"
      using nn cs by (simp add: lookup_pos)
    also have "\<dots> = lookup (int n) e h"
      using that(1) frame that(2) by (rule lookup_frame)
    finally show ?thesis .
  qed
  have kept: "is_env h' k e \<and> is_env h' (Suc k) e'" if "is_env h k e"
  proof -
    have "is_env h' k e"
      using that frame facts(5) by (simp add: is_env_frame)
    then show ?thesis using facts(3) cs by simp
  qed
  show ?thesis
    using first others fresh tail kept lookup_in_env by blast
qed

lemma extend_room:
  fixes h :: "'v::len word heap"
  assumes "used h < hm" and "Suc (used h) < 2 ^ LENGTH('v)"
  shows "\<exists>e' h'. extend hm v e h = Inr (e', h') \<and> unat e' = Suc (used h)"
  using assms by (simp add: extend_def alloc_cell_def unat_cell_number del: of_nat_Suc)

lemma extend_full:
  fixes h :: "'v::len word heap"
  assumes "\<not> (used h < hm \<and> Suc (used h) < 2 ^ LENGTH('v))"
  shows "extend hm v e h = Inl Heap_exhausted"
  using assms by (auto simp: extend_def alloc_cell_def)

text \<open>
  Claim C5. \<open>extend\<close> returns a new environment \<open>e'\<close> in a heap \<open>h'\<close> whenever the
  allocator has a cell left, and is the fault \<open>Heap_exhausted\<close> otherwise. When it
  returns: looking up index 0 in \<open>e'\<close> yields the value just bound; for an environment
  \<open>e\<close> of length \<open>k\<close> and an index \<open>n < k\<close>, looking up \<open>n + 1\<close> in \<open>e'\<close> yields what
  looking up \<open>n\<close> in \<open>e\<close> yielded before the extension, and that is a value; every cell
  other than the new one is left as it was, the new cell was not in use before, and \<open>e\<close>
  is still an environment of length \<open>k\<close> afterwards (so \<open>extend\<close> mutates no existing
  environment).
\<close>

theorem extend_lookup:
  fixes h :: "'v::len word heap"
  shows "(used h < hm \<and> Suc (used h) < 2 ^ LENGTH('v) \<longrightarrow>
           (\<exists>e' h'. extend hm v e h = Inr (e', h')
              \<and> unat e' = Suc (used h)
              \<and> lookup 0 e' h' = Inr v
              \<and> (is_env h k e \<and> n < k \<longrightarrow>
                   lookup (int n + 1) e' h' = lookup (int n) e h
                     \<and> (\<exists>x. lookup (int n) e h = Inr x))
              \<and> (\<forall>p. p \<noteq> e' \<longrightarrow> cells h' p = cells h p)
              \<and> \<not> allocated h e'
              \<and> (is_env h k e \<longrightarrow> is_env h' k e \<and> is_env h' (Suc k) e')))
       \<and> (\<not> (used h < hm \<and> Suc (used h) < 2 ^ LENGTH('v)) \<longrightarrow>
            extend hm v e h = Inl Heap_exhausted)"
proof (intro conjI impI)
  assume "used h < hm \<and> Suc (used h) < 2 ^ LENGTH('v)"
  then obtain e' h' where ext: "extend hm v e h = Inr (e', h')" and u: "unat e' = Suc (used h)"
    using extend_room [of h hm v e] by blast
  from extend_lookup_Inr [OF ext, of k n] ext u
  show "\<exists>e' h'. extend hm v e h = Inr (e', h')
              \<and> unat e' = Suc (used h)
              \<and> lookup 0 e' h' = Inr v
              \<and> (is_env h k e \<and> n < k \<longrightarrow>
                   lookup (int n + 1) e' h' = lookup (int n) e h
                     \<and> (\<exists>x. lookup (int n) e h = Inr x))
              \<and> (\<forall>p. p \<noteq> e' \<longrightarrow> cells h' p = cells h p)
              \<and> \<not> allocated h e'
              \<and> (is_env h k e \<longrightarrow> is_env h' k e \<and> is_env h' (Suc k) e')"
    by blast
next
  assume "\<not> (used h < hm \<and> Suc (used h) < 2 ^ LENGTH('v))"
  then show "extend hm v e h = Inl Heap_exhausted"
    by (rule extend_full)
qed

theorem extend_lookup_witness:
  "(\<exists>h'. extend 10 9 NULL heap0 = Inr (1, h') \<and> lookup 0 1 h' = Inr 9
          \<and> is_env heap0 0 NULL \<and> is_env h' 1 1)
   \<and> (\<exists>h'. extend 10 9 1 heap1 = Inr (2, h') \<and> is_env heap1 1 1 \<and> (0::nat) < 1
          \<and> lookup 0 2 h' = Inr 9
          \<and> lookup (int 0 + 1) 2 h' = lookup (int 0) 1 heap1
          \<and> lookup (int 0) 1 heap1 = Inr 7
          \<and> cells h' 1 = cells heap1 1)
   \<and> extend 0 9 NULL heap0 = Inl Heap_exhausted"
proof -
  have r0: "used heap0 < 10 \<and> Suc (used heap0) < 2 ^ LENGTH(64)"
    by (simp add: heap0_def)
  have r1: "used heap1 < 10 \<and> Suc (used heap1) < 2 ^ LENGTH(64)"
    by (simp add: heap1_def)
  have f: "\<not> (used heap0 < 0 \<and> Suc (used heap0) < 2 ^ LENGTH(64))"
    by simp
  have e0: "is_env heap0 0 NULL"
    by simp
  have e1: "is_env heap1 1 1 \<and> (0::nat) < 1"
    by (simp add: heap1_def allocated_def NULL_def)
  have l: "lookup (int 0) 1 heap1 = Inr 7"
    by (simp add: lookup_0 GET_ELM_def heap1_def NULL_def)
  obtain h0 where x0: "extend 10 9 NULL heap0 = Inr (1 :: 64 word, h0)"
    by (simp add: extend_def alloc_cell_def heap0_def)
  obtain h1 where x1: "extend 10 9 1 heap1 = Inr (2 :: 64 word, h1)"
    by (simp add: extend_def alloc_cell_def heap1_def)
  from extend_lookup [of heap0 10 9 NULL 0 0] r0 e0
  obtain e' h' where "extend 10 9 NULL heap0 = Inr (e', h')" and "lookup 0 e' h' = Inr 9"
    and "is_env h' (Suc 0) e'"
    by blast
  with x0 e0
  have a: "\<exists>h'. extend 10 9 NULL heap0 = Inr (1, h') \<and> lookup 0 1 h' = Inr 9
          \<and> is_env heap0 0 NULL \<and> is_env h' 1 1"
    by auto
  from extend_lookup [of heap1 10 9 1 1 0] r1 e1
  obtain e' h' where "extend 10 9 1 heap1 = Inr (e', h')" and "lookup 0 e' h' = Inr 9"
    and "lookup (int 0 + 1) e' h' = lookup (int 0) 1 heap1"
    and "\<forall>p. p \<noteq> e' \<longrightarrow> cells h' p = cells heap1 p"
    by blast
  with x1 e1 l
  have b: "\<exists>h'. extend 10 9 1 heap1 = Inr (2, h') \<and> is_env heap1 1 1 \<and> (0::nat) < 1
          \<and> lookup 0 2 h' = Inr 9
          \<and> lookup (int 0 + 1) 2 h' = lookup (int 0) 1 heap1
          \<and> lookup (int 0) 1 heap1 = Inr 7
          \<and> cells h' 1 = cells heap1 1"
    by auto
  from extend_lookup [of heap0 0 9 NULL 0 0] f
  have c: "extend 0 9 NULL heap0 = Inl Heap_exhausted"
    by blast
  from a b c show ?thesis by blast
qed

subsection \<open>Lookup outside the environment\<close>

text \<open>
  Claim C6. \<open>lookup\<close> asserts that the environment is not \<open>NULL\<close> only before it follows
  a link. With an index equal to the length of the environment the walk ends on \<open>NULL\<close>
  with no assertion run, and the element is read through the \<open>NULL\<close> pointer; only an
  index beyond the length fails the assertion. Evaluated on the one-node environment of
  \<open>heap1\<close> and on the empty environment.
\<close>

theorem lookup_at_length_reads_through_NULL:
  "is_env heap1 1 1
     \<and> lookup 1 1 heap1 = Inl Null_dereference
     \<and> lookup 0 NULL heap1 = Inl Null_dereference
     \<and> lookup 2 1 heap1 = Inl (Assertion_failed Env_not_null)"
proof -
  have e: "is_env heap1 1 1"
    by (simp add: heap1_def allocated_def NULL_def)
  have e0: "is_env heap1 0 NULL"
    by simp
  have "(1::nat) < 2" by simp
  from lookup_at_length [OF e] lookup_at_length [OF e0] lookup_beyond_length [OF e this] e
  show ?thesis by simp
qed

subsection \<open>One turn of the loop\<close>

lemma decode_labels:
  assumes "labels_distinct cfg"
  shows "decode cfg (op_LDC cfg) = Some LDC" "decode cfg (op_LD cfg) = Some LD"
    "decode cfg (op_ADD cfg) = Some ADD" "decode cfg (op_SUB cfg) = Some SUB"
    "decode cfg (op_MUL cfg) = Some MUL" "decode cfg (op_SEL cfg) = Some SEL"
    "decode cfg (op_LDF cfg) = Some LDF" "decode cfg (op_LDRF cfg) = Some LDRF"
    "decode cfg (op_AP cfg) = Some AP" "decode cfg (op_RTN cfg) = Some RTN"
    "decode cfg (op_JOIN cfg) = Some JOIN" "decode cfg (op_HALT cfg) = Some HALT"
  using assms by (auto simp: labels_distinct_def decode_def)

lemma dispatch_decoded:
  "decode cfg (code (pc s)) = Some i \<Longrightarrow> dispatch cfg code s = exec cfg code i (s\<lparr>pc := pc s + 1\<rparr>)"
  by (simp add: dispatch_def)

lemma dispatch_default:
  "decode cfg (code (pc s)) = None
     \<Longrightarrow> dispatch cfg code s = Stop (Fault (Invalid_opcode (code (pc s)) (pc s + 1)))"
  by (simp add: dispatch_def)

lemma step_decoded:
  "decode cfg (code (pc s)) = Some i \<Longrightarrow>
     step cfg code s =
       (case exec cfg code i (s\<lparr>pc := pc s + 1\<rparr>) of
          Continue s' \<Rightarrow> check_bounds cfg s'
        | Stop r \<Rightarrow> Stop r)"
  by (simp add: step_def dispatch_decoded)

lemma step_HALT:
  "decode cfg (code (pc s)) = Some HALT \<Longrightarrow> step cfg code s = Stop (Return (stack s (sp s - 1)))"
  by (simp add: step_def dispatch_decoded)

lemma step_default:
  "decode cfg (code (pc s)) = None
     \<Longrightarrow> step cfg code s = Stop (Fault (Invalid_opcode (code (pc s)) (pc s + 1)))"
  by (simp add: step_def dispatch_default)

lemma interp_loop_Stop:
  "step cfg code s = Stop r \<Longrightarrow> interp_loop cfg code s = Some r"
  by (subst interp_loop.simps) simp

lemma interp_loop_Continue:
  "step cfg code s = Continue s' \<Longrightarrow> interp_loop cfg code s = interp_loop cfg code s'"
  by (subst interp_loop.simps) simp

lemma check_bounds_Continue:
  "check_bounds cfg s = Continue s' \<longleftrightarrow>
     s' = s \<and> 0 \<le> sp s \<and> sp s < STACK_MAX cfg \<and> 0 \<le> dp s \<and> dp s < DUMP_MAX cfg
       \<and> 0 \<le> pc s \<and> pc s < CODE_MAX cfg"
  by (auto simp: check_bounds_def)

lemma step_Continue:
  "step cfg code s = Continue s' \<longleftrightarrow>
     dispatch cfg code s = Continue s' \<and> 0 \<le> sp s' \<and> sp s' < STACK_MAX cfg
       \<and> 0 \<le> dp s' \<and> dp s' < DUMP_MAX cfg \<and> 0 \<le> pc s' \<and> pc s' < CODE_MAX cfg"
  by (auto simp: step_def check_bounds_Continue split: outcome.splits)

lemma check_bounds_cases:
  "check_bounds cfg s = (if in_bounds cfg s then Continue s
     else Stop (Fault (Assertion_failed
            (if \<not> (0 \<le> sp s \<and> sp s < STACK_MAX cfg) then Sp_bounds
             else if \<not> (0 \<le> dp s \<and> dp s < DUMP_MAX cfg) then Dp_bounds else Pc_bounds))))"
  by (simp add: check_bounds_def in_bounds_def)

subsection \<open>Halt\<close>

text \<open>
  Claim C9. \<open>HALT\<close> returns \<open>stack[--sp]\<close> from inside the \<open>switch\<close>, so the assertions on
  the registers are not reached. With \<open>sp = 0\<close> the value returned is the word at index
  \<open>-1\<close>, below the base of the stack; the loop ends with that result and no fault, although
  the decremented stack pointer would fail the assertion on \<open>sp\<close>.
\<close>

theorem halt_skips_bounds_check:
  assumes "decode cfg (code (pc s)) = Some HALT" and "sp s = 0"
  shows "step cfg code s = Stop (Return (stack s (- 1)))
       \<and> interp_loop cfg code s = Some (Return (stack s (- 1)))
       \<and> check_bounds cfg (s\<lparr>sp := sp s - 1\<rparr>) = Stop (Fault (Assertion_failed Sp_bounds))"
proof -
  have "step cfg code s = Stop (Return (stack s (- 1)))"
    using step_HALT [of cfg code s] assms by simp
  then show ?thesis
    using assms(2) by (simp add: interp_loop_Stop check_bounds_def)
qed

theorem halt_skips_bounds_check_witness:
  "decode cfg0 (code_of [11] 0) = Some HALT
     \<and> interp cfg0 (code_of [11]) (stack0(- 1 := 42)) dump0 heap0 = Some (Return 42)"
proof -
  let ?s = "\<lparr>pc = 0, sp = 0, dp = 0, env = NULL, stack = stack0(- 1 := 42), dump = dump0, heap = heap0\<rparr>"
  have d: "decode cfg0 (code_of [11] (pc ?s)) = Some HALT"
    by (simp add: decode_def cfg0_def code_of_def)
  have z: "sp ?s = 0" by simp
  from halt_skips_bounds_check [of cfg0 "code_of [11]" ?s] d z show ?thesis
    by (simp add: interp_def)
qed

subsection \<open>Invalid opcodes\<close>

text \<open>
  Claim C7. An opcode that matches no case label ends the run with the fault
  \<open>Invalid_opcode\<close> and no result: the loop is not resumed. The diagnostic carries the
  opcode and the program counter as it is after the fetch, which is one past the
  position of the opcode: for the word 99 at position 0 the position reported is 1.
\<close>

theorem invalid_opcode_reports_next_pc:
  "decode cfg0 (code_of [99] 0) = None
     \<and> interp cfg0 (code_of [99]) stack0 dump0 heap0 = Some (Fault (Invalid_opcode 99 1))"
proof -
  let ?s = "\<lparr>pc = 0, sp = 0, dp = 0, env = NULL, stack = stack0, dump = dump0, heap = heap0\<rparr>"
  have d: "decode cfg0 (code_of [99] (pc ?s)) = None"
    by (simp add: decode_def cfg0_def code_of_def)
  from step_default [of cfg0 "code_of [99]" ?s] d
  have "step cfg0 (code_of [99]) ?s = Stop (Fault (Invalid_opcode 99 1))"
    by (simp add: code_of_def)
  then show ?thesis using d
    by (simp add: interp_def interp_loop_Stop)
qed

subsection \<open>Arithmetic\<close>

lemma dispatch_arith:
  assumes "decode cfg (code (pc s)) = Some i" and "i = ADD \<or> i = SUB \<or> i = MUL"
  shows "dispatch cfg code s =
           Continue (s\<lparr>pc := pc s + 1,
                       stack := (stack s)(sp s - 2 :=
                         (if i = ADD then stack s (sp s - 1) + stack s (sp s - 2)
                          else if i = SUB then stack s (sp s - 2) - stack s (sp s - 1)
                          else stack s (sp s - 1) * stack s (sp s - 2))),
                       sp := sp s - 1\<rparr>)"
  using assms by (auto simp: dispatch_decoded Let_def)

lemma arith_word:
  fixes a b :: "'v::len word"
  assumes "i = ADD \<or> i = SUB \<or> i = MUL"
  defines "r \<equiv> (if i = ADD then a + b else if i = SUB then b - a else a * b)"
  shows "uint r = arith_int i (uint a) (uint b) mod 2 ^ LENGTH('v)"
    and "sint r = signed_take_bit (LENGTH('v) - 1) (arith_int i (sint a) (sint b))"
  using assms(1) unfolding r_def
  by (auto simp: uint_word_ariths sint_word_ariths)

text \<open>
  Claim C10. \<open>ADD\<close>, \<open>SUB\<close> and \<open>MUL\<close> always complete the \<open>switch\<close>: they replace the two
  top words of the stack by a word \<open>r\<close> and the turn goes on to the assertions on the
  registers. \<open>r\<close> is the integer result reduced to the width \<open>w\<close> of \<open>value_t\<close>: read
  unsigned it is the result modulo \<open>2 ^ w\<close>, read signed it is the result wrapped into the
  two's-complement range, and it is the integer result itself exactly when that lies
  in the range. In the witness, at \<open>w = 64\<close>: the largest signed integer plus 1 is the
  smallest one, the smallest minus 1 is the largest, \<open>2 ^ 32\<close> times \<open>2 ^ 32\<close> is 0,
  and 10 minus 4 is 6.
\<close>

theorem arithmetic_wraps:
  fixes s :: "'v::len word state"
  assumes "decode cfg (code (pc s)) = Some i" and "i = ADD \<or> i = SUB \<or> i = MUL"
  shows "\<exists>r. dispatch cfg code s
                = Continue (s\<lparr>pc := pc s + 1, stack := (stack s)(sp s - 2 := r), sp := sp s - 1\<rparr>)
            \<and> step cfg code s
                = check_bounds cfg
                    (s\<lparr>pc := pc s + 1, stack := (stack s)(sp s - 2 := r), sp := sp s - 1\<rparr>)
            \<and> uint r
                = arith_int i (uint (stack s (sp s - 1))) (uint (stack s (sp s - 2)))
                    mod 2 ^ LENGTH('v)
            \<and> sint r
                = signed_take_bit (LENGTH('v) - 1)
                    (arith_int i (sint (stack s (sp s - 1))) (sint (stack s (sp s - 2))))
            \<and> (- (2 ^ (LENGTH('v) - 1))
                    \<le> arith_int i (sint (stack s (sp s - 1))) (sint (stack s (sp s - 2)))
                  \<and> arith_int i (sint (stack s (sp s - 1))) (sint (stack s (sp s - 2)))
                    < 2 ^ (LENGTH('v) - 1)
                \<longrightarrow> sint r = arith_int i (sint (stack s (sp s - 1))) (sint (stack s (sp s - 2))))"
proof -
  let ?a = "stack s (sp s - 1)" and ?b = "stack s (sp s - 2)"
  let ?r = "if i = ADD then ?a + ?b else if i = SUB then ?b - ?a else ?a * ?b"
  let ?s' = "s\<lparr>pc := pc s + 1, stack := (stack s)(sp s - 2 := ?r), sp := sp s - 1\<rparr>"
  have d: "dispatch cfg code s = Continue ?s'"
    using assms by (rule dispatch_arith)
  then have st: "step cfg code s = check_bounds cfg ?s'"
    by (simp add: step_def)
  note w = arith_word [OF assms(2), of ?a ?b]
  have exact: "sint ?r = arith_int i (sint ?a) (sint ?b)"
    if "- (2 ^ (LENGTH('v) - 1)) \<le> arith_int i (sint ?a) (sint ?b)"
      and "arith_int i (sint ?a) (sint ?b) < 2 ^ (LENGTH('v) - 1)"
    using that w(2) by (simp only: signed_take_bit_int_eq_self)
  show ?thesis
    using d st w exact by (intro exI [of _ ?r]) blast
qed

theorem arithmetic_wraps_witness:
  "(\<exists>s'. decode cfg0 (binop_code 2 (pc (binop_state 9223372036854775807 1))) = Some ADD
        \<and> step cfg0 (binop_code 2) (binop_state 9223372036854775807 1) = Continue s'
        \<and> sint (stack s' (sp s' - 1)) = - 9223372036854775808)
   \<and> (\<exists>s'. decode cfg0 (binop_code 3 (pc (binop_state 9223372036854775808 1))) = Some SUB
        \<and> step cfg0 (binop_code 3) (binop_state 9223372036854775808 1) = Continue s'
        \<and> sint (stack s' (sp s' - 1)) = 9223372036854775807)
   \<and> (\<exists>s'. decode cfg0 (binop_code 4 (pc (binop_state 4294967296 4294967296))) = Some MUL
        \<and> step cfg0 (binop_code 4) (binop_state 4294967296 4294967296) = Continue s'
        \<and> sint (stack s' (sp s' - 1)) = 0)
   \<and> (\<exists>s'. decode cfg0 (binop_code 3 (pc (binop_state 10 4))) = Some SUB
        \<and> - (2 ^ (LENGTH(64) - 1)) \<le> arith_int SUB (sint (4 :: 64 word)) (sint (10 :: 64 word))
        \<and> arith_int SUB (sint (4 :: 64 word)) (sint (10 :: 64 word)) < 2 ^ (LENGTH(64) - 1)
        \<and> step cfg0 (binop_code 3) (binop_state 10 4) = Continue s'
        \<and> sint (stack s' (sp s' - 1)) = 6)"
proof -
  have d: "decode cfg0 (binop_code 2 (pc (binop_state x y))) = Some ADD"
    "decode cfg0 (binop_code 3 (pc (binop_state x y))) = Some SUB"
    "decode cfg0 (binop_code 4 (pc (binop_state x y))) = Some MUL" for x y
    by (simp_all add: decode_def cfg0_def code_of_def binop_code_def binop_state_def)
  have b: "check_bounds cfg0 ((binop_state x y)\<lparr>pc := pc (binop_state x y) + 1,
               stack := (stack (binop_state x y))(sp (binop_state x y) - 2 := r),
               sp := sp (binop_state x y) - 1\<rparr>)
           = Continue ((binop_state x y)\<lparr>pc := 5, stack := stack0(1 := y, 0 := r), sp := 1\<rparr>)"
    for x y r
    by (simp add: check_bounds_def cfg0_def binop_state_def)
  have v: "stack (binop_state x y) (sp (binop_state x y) - 1) = y"
    "stack (binop_state x y) (sp (binop_state x y) - 2) = x" for x y
    by (simp_all add: binop_state_def)
  from arithmetic_wraps [of cfg0 "binop_code 2" "binop_state 9223372036854775807 1" ADD] d(1)
  have 1: "\<exists>s'. step cfg0 (binop_code 2) (binop_state 9223372036854775807 1) = Continue s'
        \<and> sint (stack s' (sp s' - 1)) = - 9223372036854775808"
    by (auto simp: b v)
  from arithmetic_wraps [of cfg0 "binop_code 3" "binop_state 9223372036854775808 1" SUB] d(2)
  have 2: "\<exists>s'. step cfg0 (binop_code 3) (binop_state 9223372036854775808 1) = Continue s'
        \<and> sint (stack s' (sp s' - 1)) = 9223372036854775807"
    by (auto simp: b v)
  from arithmetic_wraps [of cfg0 "binop_code 4" "binop_state 4294967296 4294967296" MUL] d(3)
  have 3: "\<exists>s'. step cfg0 (binop_code 4) (binop_state 4294967296 4294967296) = Continue s'
        \<and> sint (stack s' (sp s' - 1)) = 0"
    by (auto simp: b v)
  from arithmetic_wraps [of cfg0 "binop_code 3" "binop_state 10 4" SUB] d(2)
  have 4: "\<exists>s'. step cfg0 (binop_code 3) (binop_state 10 4) = Continue s'
        \<and> sint (stack s' (sp s' - 1)) = 6"
    by (auto simp: b v)
  have r: "- (2 ^ (LENGTH(64) - 1)) \<le> arith_int SUB (sint (4 :: 64 word)) (sint (10 :: 64 word))
        \<and> arith_int SUB (sint (4 :: 64 word)) (sint (10 :: 64 word)) < 2 ^ (LENGTH(64) - 1)"
    by simp
  from 1 2 3 4 r d show ?thesis by blast
qed

text \<open>
  Claim C4. The program \<open>LDC a; LDC b; SUB; HALT\<close>, run by \<open>interp\<close> on any initial
  memory, returns \<open>a - b\<close> as a \<open>value_t\<close>: the operand pushed last is subtracted from the
  one pushed first. The capacities must hold the two operands and the six code words.
\<close>

theorem subtract_operand_order:
  fixes st :: "int \<Rightarrow> 'v::len word"
  assumes labels: "labels_distinct cfg"
    and prog: "prog_at code 0 [op_LDC cfg, a, op_LDC cfg, b, op_SUB cfg, op_HALT cfg]"
    and caps: "2 < STACK_MAX cfg" "0 < DUMP_MAX cfg" "5 < CODE_MAX cfg"
  shows "interp cfg code st dm hp = Some (Return (of_int a - of_int b))
       \<and> (of_int a - of_int b :: 'v word) = of_int (a - b)"
proof -
  let ?s0 = "\<lparr>pc = 0, sp = 0, dp = 0, env = NULL, stack = st, dump = dm, heap = hp\<rparr>"
  let ?s1 = "?s0\<lparr>pc := 2, stack := st(0 := of_int a), sp := 1\<rparr>"
  let ?s2 = "?s1\<lparr>pc := 4, stack := (stack ?s1)(1 := of_int b), sp := 2\<rparr>"
  let ?s3 = "?s2\<lparr>pc := 5, stack := (stack ?s2)(0 := of_int a - of_int b), sp := 1\<rparr>"
  from prog have c: "code 0 = op_LDC cfg" "code 1 = a" "code 2 = op_LDC cfg" "code 3 = b"
    "code 4 = op_SUB cfg" "code 5 = op_HALT cfg"
    by simp_all
  note dl = decode_labels [OF labels]
  have 1: "step cfg code ?s0 = Continue ?s1"
    using c caps dl(1) by (simp add: step_decoded check_bounds_def)
  have 2: "step cfg code ?s1 = Continue ?s2"
    using c caps dl(1) by (simp add: step_decoded check_bounds_def)
  have 3: "step cfg code ?s2 = Continue ?s3"
    using c caps dl(4) by (simp add: step_decoded check_bounds_def)
  have 4: "step cfg code ?s3 = Stop (Return (of_int a - of_int b))"
    using c dl(12) by (simp add: step_decoded)
  have "interp cfg code st dm hp = Some (Return (of_int a - of_int b))"
    unfolding interp_def
    by (simp only: interp_loop_Continue [OF 1] interp_loop_Continue [OF 2]
        interp_loop_Continue [OF 3] interp_loop_Stop [OF 4])
  then show ?thesis by simp
qed

theorem subtract_operand_order_witness:
  "labels_distinct cfg0
     \<and> prog_at (code_of [0, 10, 0, 4, 3, 11]) 0 [op_LDC cfg0, 10, op_LDC cfg0, 4, op_SUB cfg0, op_HALT cfg0]
     \<and> 2 < STACK_MAX cfg0 \<and> 0 < DUMP_MAX cfg0 \<and> 5 < CODE_MAX cfg0
     \<and> interp cfg0 (code_of [0, 10, 0, 4, 3, 11]) stack0 dump0 heap0 = Some (Return 6)"
proof -
  have l: "labels_distinct cfg0"
    by (simp add: labels_distinct_def cfg0_def)
  have p: "prog_at (code_of [0, 10, 0, 4, 3, 11]) 0
             [op_LDC cfg0, 10, op_LDC cfg0, 4, op_SUB cfg0, op_HALT cfg0]"
    by (simp add: code_of_def cfg0_def)
  have c: "2 < STACK_MAX cfg0" "0 < DUMP_MAX cfg0" "5 < CODE_MAX cfg0"
    by (simp_all add: cfg0_def)
  from subtract_operand_order [OF l p c, of stack0 dump0 heap0] l p c
  show ?thesis by simp
qed

subsection \<open>The assertions on the registers\<close>

text \<open>
  Claim C8. A turn of the loop that continues leaves \<open>sp\<close>, \<open>dp\<close> and \<open>pc\<close> within
  \<open>[0, STACK_MAX)\<close>, \<open>[0, DUMP_MAX)\<close> and \<open>[0, CODE_MAX)\<close>. When the \<open>switch\<close> has produced a
  state that violates a range, the turn ends in a failed assertion; when it has produced
  one that violates none, the loop continues with it. The check comes after the
  instruction has changed the memory: in the witness, \<open>ADD\<close> on the empty stack has written
  index \<open>-2\<close> of the stack before the assertion on \<open>sp\<close> fails.
\<close>

theorem registers_checked_after_instruction:
  "(step cfg code s = Continue s' \<longrightarrow> in_bounds cfg s')
   \<and> (dispatch cfg code s = Continue s'' \<and> \<not> in_bounds cfg s'' \<longrightarrow>
        (\<exists>a. step cfg code s = Stop (Fault (Assertion_failed a))))
   \<and> (dispatch cfg code s = Continue s'' \<and> in_bounds cfg s'' \<longrightarrow> step cfg code s = Continue s'')"
  by (auto simp: step_def check_bounds_cases split: outcome.splits if_splits)

theorem registers_checked_after_instruction_witness:
  "\<exists>s' s''. step cfg0 (code_of [0, 5]) init_state = Continue s' \<and> in_bounds cfg0 s'
     \<and> dispatch cfg0 (code_of [2]) init_state = Continue s'' \<and> \<not> in_bounds cfg0 s''
     \<and> sp s'' = - 1
     \<and> stack s'' = (stack init_state)(- 2 := stack init_state (- 1) + stack init_state (- 2))
     \<and> step cfg0 (code_of [2]) init_state = Stop (Fault (Assertion_failed Sp_bounds))"
proof -
  obtain s' where 1: "step cfg0 (code_of [0, 5]) init_state = Continue s'"
    by (simp add: step_def dispatch_def decode_def check_bounds_def init_state_def cfg0_def code_of_def)
  obtain s'' where 2: "dispatch cfg0 (code_of [2]) init_state = Continue s''"
    and 3: "sp s'' = - 1"
    and 4: "stack s'' = (stack init_state)(- 2 := stack init_state (- 1) + stack init_state (- 2))"
    by (simp add: dispatch_def decode_def init_state_def cfg0_def code_of_def)
  have 5: "\<not> in_bounds cfg0 s''"
    using 3 by (simp add: in_bounds_def)
  have 6: "step cfg0 (code_of [2]) init_state = Stop (Fault (Assertion_failed Sp_bounds))"
    using 2 3 by (simp add: step_def check_bounds_def)
  from registers_checked_after_instruction [of cfg0 "code_of [0, 5]" init_state s' s'']
    registers_checked_after_instruction [of cfg0 "code_of [0, 5]" init_state s' s']
    registers_checked_after_instruction [of cfg0 "code_of [2]" init_state s' s'']
    1 2 3 4 5 6
  show ?thesis by blast
qed

subsection \<open>The instructions one by one\<close>

lemma mkclosure_Inr:
  assumes "mkclosure hm a e h = Inr (p, h')"
  shows "p \<noteq> NULL" "\<not> allocated h p" "allocated h' p"
    "cells h' = (cells h)(p := (cells h p)\<lparr>code_addr := a, cenv := e\<rparr>)"
    "used h' = Suc (used h)" "unat p = Suc (used h)"
  using assms
  by (auto simp: mkclosure_def SET_CODE_def SET_ENV_def allocated_def
      dest: alloc_cell_Inr alloc_cell_fresh split: sum.splits)

lemma step_plain:
  assumes "decode cfg (code (pc s)) = Some i" and "i \<in> {LDC, LD, ADD, SUB, MUL, LDF, LDRF}"
    and "step cfg code s = Continue s'"
  shows "dp s' = dp s" "env s' = env s" "dump s' = dump s"
  using assms
  by (auto simp: step_decoded check_bounds_def Let_def split: if_splits sum.splits prod.splits)

lemma step_SEL:
  assumes "decode cfg (code (pc s)) = Some SEL" and "step cfg code s = Continue s'"
  shows "s' = s\<lparr>sp := sp s - 1,
                 dump := (dump s)(dp s := (dump s (dp s))\<lparr>dpc := pc s + 3\<rparr>),
                 dp := dp s + 1,
                 pc := (if stack s (sp s - 1) = 0 then code (pc s + 1) else code (pc s + 2))\<rparr>"
  using assms
  by (auto simp: step_decoded check_bounds_def Let_def add.commute split: if_splits)

lemma step_JOIN:
  assumes "decode cfg (code (pc s)) = Some JOIN" and "step cfg code s = Continue s'"
  shows "s' = s\<lparr>dp := dp s - 1, pc := dpc (dump s (dp s - 1))\<rparr>"
  using assms
  by (auto simp: step_decoded check_bounds_def Let_def split: if_splits)

lemma step_RTN:
  assumes "decode cfg (code (pc s)) = Some RTN" and "step cfg code s = Continue s'"
  shows "s' = s\<lparr>dp := dp s - 1, pc := dpc (dump s (dp s - 1)), env := denv (dump s (dp s - 1))\<rparr>"
  using assms
  by (auto simp: step_decoded check_bounds_def Let_def split: if_splits)

lemma step_AP:
  assumes "decode cfg (code (pc s)) = Some AP" and "step cfg code s = Continue s'"
  shows "\<exists>ce nenv h a.
           GET_ENV (stack s (sp s - 2)) (heap s) = Inr ce
         \<and> extend (HEAP_MAX cfg) (stack s (sp s - 1)) ce (heap s) = Inr (nenv, h)
         \<and> GET_CODE (stack s (sp s - 2)) h = Inr a
         \<and> s' = s\<lparr>sp := sp s - 2,
                   dump := (dump s)(dp s := \<lparr>dpc = pc s + 1, denv = env s\<rparr>),
                   dp := dp s + 1, heap := h, env := nenv, pc := a\<rparr>"
  using assms
  by (auto simp: step_decoded check_bounds_def Let_def split: if_splits sum.splits prod.splits)




subsection \<open>What a turn of the loop leaves alone\<close>

lemma step_dump_below:
  assumes "step cfg code s = Continue s'" and "j \<noteq> dp s"
  shows "dump s' j = dump s j"
proof (cases "decode cfg (code (pc s))")
  case None
  then show ?thesis using assms by (simp add: step_default)
next
  case (Some i)
  consider "i \<in> {LDC, LD, ADD, SUB, MUL, LDF, LDRF}" | "i = SEL" | "i = AP" | "i = RTN"
    | "i = JOIN" | "i = HALT"
    by (cases i) auto
  then show ?thesis
  proof cases
    case 1
    from step_plain(3) [OF Some 1 assms(1)] show ?thesis by simp
  next
    case 2
    with Some assms show ?thesis by (auto dest!: step_SEL)
  next
    case 3
    with Some assms show ?thesis by (auto dest!: step_AP)
  next
    case 4
    with Some assms show ?thesis by (auto dest!: step_RTN)
  next
    case 5
    with Some assms show ?thesis by (auto dest!: step_JOIN)
  next
    case 6
    with Some assms show ?thesis by (simp add: step_HALT)
  qed
qed

lemma stays_above_frame:
  "stays_above cfg code d n s \<Longrightarrow> run cfg code n s = Continue s' \<Longrightarrow> j \<le> d
     \<Longrightarrow> dump s' j = dump s j"
proof (induction n arbitrary: s)
  case 0
  then show ?case by simp
next
  case (Suc n)
  from Suc.prems(1) obtain s1 where 1: "step cfg code s = Continue s1" and d: "d < dp s"
    and 2: "stays_above cfg code d n s1"
    by (auto split: outcome.splits)
  from Suc.prems(2) 1 have 3: "run cfg code n s1 = Continue s'" by simp
  from d Suc.prems(3) have "j \<noteq> dp s" by simp
  from step_dump_below [OF 1 this] Suc.IH [OF 2 3 Suc.prems(3)]
  show ?case by simp
qed

lemma balanced_invariant:
  "balanced cfg code s s' \<Longrightarrow>
     dp s' = dp s \<and> env s' = env s \<and> (\<forall>j < dp s. dump s' j = dump s j)"
proof (induction rule: balanced.induct)
  case (finished s)
  then show ?case by simp
next
  case (plain s i s1 s2)
  from step_plain [OF plain.hyps(1,2,3)] plain.IH show ?case by simp
next
  case (branch s s1 s2 s3 s4)
  from step_SEL [OF branch.hyps(1,2)] step_JOIN [OF branch.hyps(4,5)] branch.IH
  show ?case by simp
next
  case (call s s1 s2 s3 s4)
  from step_AP [OF call.hyps(1,2)] step_RTN [OF call.hyps(4,5)] call.IH
  show ?case by auto
qed



subsection \<open>Recursive closures\<close>

lemma mkclosure_room:
  fixes h :: "'v::len word heap"
  assumes "used h < hm" and "Suc (used h) < 2 ^ LENGTH('v)"
  shows "\<exists>p h'. mkclosure hm a e h = Inr (p, h')"
  using assms by (simp add: mkclosure_def alloc_cell_def)

lemma mkclosure_full:
  fixes h :: "'v::len word heap"
  assumes "\<not> (used h < hm \<and> Suc (used h) < 2 ^ LENGTH('v))"
  shows "mkclosure hm a e h = Inl Heap_exhausted"
  using assms by (auto simp: mkclosure_def alloc_cell_def)

lemma dispatch_LDRF:
  assumes "decode cfg (code (pc s)) = Some LDRF"
  shows "dispatch cfg code s =
     (case extend (HEAP_MAX cfg) NULL (env s) (heap s) of
        Inl f \<Rightarrow> Stop (Fault f)
      | Inr (nenv, h1) \<Rightarrow>
         (case mkclosure (HEAP_MAX cfg) (code (pc s + 1)) nenv h1 of
            Inl f \<Rightarrow> Stop (Fault f)
          | Inr (cptr, h2) \<Rightarrow>
              Continue (s\<lparr>pc := pc s + 2, heap := SET_ELM nenv cptr h2,
                          stack := (stack s)(sp s := cptr), sp := sp s + 1\<rparr>)))"
  using assms by (simp add: dispatch_decoded Let_def split: sum.splits prod.splits)

lemma knot_tied:
  assumes ext: "extend hm NULL e h = Inr (nenv, h1)"
    and mk: "mkclosure hm a nenv h1 = Inr (cptr, h2)"
  shows "cptr \<noteq> NULL \<and> nenv \<noteq> NULL \<and> cptr \<noteq> nenv
       \<and> GET_CODE cptr (SET_ELM nenv cptr h2) = Inr a
       \<and> GET_ENV cptr (SET_ELM nenv cptr h2) = Inr nenv
       \<and> lookup 0 nenv (SET_ELM nenv cptr h2) = Inr cptr
       \<and> GET_NEXT nenv (SET_ELM nenv cptr h2) = Inr e
       \<and> (\<forall>p. allocated h p \<longrightarrow> cells (SET_ELM nenv cptr h2) p = cells h p)
       \<and> (\<forall>arg e2 h3. extend hm arg nenv (SET_ELM nenv cptr h2) = Inr (e2, h3) \<longrightarrow>
             lookup 0 e2 h3 = Inr arg \<and> lookup 1 e2 h3 = Inr cptr)"
proof -
  let ?h = "SET_ELM nenv cptr h2"
  note e = extend_Inr [OF ext] and m = mkclosure_Inr [OF mk]
  have ne: "cptr \<noteq> nenv"
    using e(5,6) m(6) by auto
  have hp: "cells ?h = (cells h2)(nenv := (cells h2 nenv)\<lparr>elm := cptr\<rparr>)"
    by (simp add: SET_ELM_def)
  have c1: "GET_CODE cptr ?h = Inr a"
    using hp ne m(1,4) by (simp add: GET_CODE_def)
  have c2: "GET_ENV cptr ?h = Inr nenv"
    using hp ne m(1,4) by (simp add: GET_ENV_def)
  have c3: "lookup 0 nenv ?h = Inr cptr"
    using hp e(1) by (simp add: lookup_0 GET_ELM_def)
  have c4: "GET_NEXT nenv ?h = Inr e"
    using hp ne e(1,4) m(4) by (simp add: GET_NEXT_def)
  have c5: "cells ?h p = cells h p" if "allocated h p" for p
  proof -
    from that e(2) have "p \<noteq> nenv" by auto
    moreover from that e(5) have "allocated h1 p" by (simp add: allocated_def)
    with m(2) have "p \<noteq> cptr" by auto
    ultimately show ?thesis using hp e(4) m(4) by simp
  qed
  have c6: "lookup 0 e2 h3 = Inr arg \<and> lookup 1 e2 h3 = Inr cptr"
    if x: "extend hm arg nenv ?h = Inr (e2, h3)" for arg e2 h3
  proof -
    note x = extend_Inr [OF x]
    have "used ?h = Suc (Suc (used h))"
      using e(5) m(5) by (simp add: SET_ELM_def)
    with x(6) e(6) have d: "e2 \<noteq> nenv" by auto
    have "lookup 1 e2 h3 = lookup 0 nenv h3"
      using x(1,4) by (simp add: lookup_pos)
    also have "\<dots> = Inr cptr"
      using x(4) d hp e(1) by (simp add: lookup_0 GET_ELM_def)
    finally show ?thesis
      using x(1,4) by (simp add: lookup_0 GET_ELM_def)
  qed
  show ?thesis
    using ne c1 c2 c3 c4 c5 c6 e(1) m(1) by blast
qed

text \<open>
  Claim C3. \<open>LDRF\<close> completes the \<open>switch\<close> whenever the allocator has two cells left,
  in any environment, the empty one included, and is the fault \<open>Heap_exhausted\<close>
  otherwise. When it completes, it has pushed a closure \<open>cptr\<close> whose code address is the
  operand and whose captured environment \<open>nenv\<close> is a new node in front of the current
  environment; looking up index 0 in \<open>nenv\<close> yields \<open>cptr\<close> itself. The cells in use
  before are untouched. Nothing but the ordinary \<open>extend\<close> and \<open>lookup\<close> is involved
  afterwards: when \<open>nenv\<close> is extended by an argument, as \<open>AP\<close> does, index 0 is the
  argument and index 1 is \<open>cptr\<close>.
\<close>

theorem recursive_closure_ties_knot:
  fixes s :: "'v::len word state"
  assumes op: "decode cfg (code (pc s)) = Some LDRF"
  shows "(Suc (used (heap s)) < HEAP_MAX cfg \<and> Suc (Suc (used (heap s))) < 2 ^ LENGTH('v) \<longrightarrow>
          (\<exists>cptr nenv h'.
             dispatch cfg code s
               = Continue (s\<lparr>pc := pc s + 2, heap := h',
                             stack := (stack s)(sp s := cptr), sp := sp s + 1\<rparr>)
           \<and> step cfg code s
               = check_bounds cfg (s\<lparr>pc := pc s + 2, heap := h',
                                      stack := (stack s)(sp s := cptr), sp := sp s + 1\<rparr>)
           \<and> cptr \<noteq> NULL \<and> nenv \<noteq> NULL \<and> cptr \<noteq> nenv
           \<and> GET_CODE cptr h' = Inr (code (pc s + 1))
           \<and> GET_ENV cptr h' = Inr nenv
           \<and> lookup 0 nenv h' = Inr cptr
           \<and> GET_NEXT nenv h' = Inr (env s)
           \<and> (\<forall>p. allocated (heap s) p \<longrightarrow> cells h' p = cells (heap s) p)
           \<and> (\<forall>arg e2 h2. extend (HEAP_MAX cfg) arg nenv h' = Inr (e2, h2) \<longrightarrow>
                 lookup 0 e2 h2 = Inr arg \<and> lookup 1 e2 h2 = Inr cptr)))
       \<and> (\<not> (Suc (used (heap s)) < HEAP_MAX cfg \<and> Suc (Suc (used (heap s))) < 2 ^ LENGTH('v)) \<longrightarrow>
            dispatch cfg code s = Stop (Fault Heap_exhausted)
          \<and> step cfg code s = Stop (Fault Heap_exhausted))"
proof (intro conjI impI)
  assume room: "Suc (used (heap s)) < HEAP_MAX cfg \<and> Suc (Suc (used (heap s))) < 2 ^ LENGTH('v)"
  then have "used (heap s) < HEAP_MAX cfg" and "Suc (used (heap s)) < 2 ^ LENGTH('v)"
    by simp_all
  then obtain nenv h1 where ext: "extend (HEAP_MAX cfg) NULL (env s) (heap s) = Inr (nenv, h1)"
    using extend_room [of "heap s" "HEAP_MAX cfg" NULL "env s"] by blast
  from extend_Inr(5) [OF ext] room
  have "used h1 < HEAP_MAX cfg" and "Suc (used h1) < 2 ^ LENGTH('v)"
    by simp_all
  then obtain cptr h2 where
    mk: "mkclosure (HEAP_MAX cfg) (code (pc s + 1)) nenv h1 = Inr (cptr, h2)"
    using mkclosure_room [of h1 "HEAP_MAX cfg" "code (pc s + 1)" nenv] by blast
  let ?s' = "s\<lparr>pc := pc s + 2, heap := SET_ELM nenv cptr h2,
                 stack := (stack s)(sp s := cptr), sp := sp s + 1\<rparr>"
  have d: "dispatch cfg code s = Continue ?s'"
    using op ext mk by (simp add: dispatch_LDRF)
  then have st: "step cfg code s = check_bounds cfg ?s'"
    by (simp add: step_def)
  from d st knot_tied [OF ext mk]
  show "\<exists>cptr nenv h'.
             dispatch cfg code s
               = Continue (s\<lparr>pc := pc s + 2, heap := h',
                             stack := (stack s)(sp s := cptr), sp := sp s + 1\<rparr>)
           \<and> step cfg code s
               = check_bounds cfg (s\<lparr>pc := pc s + 2, heap := h',
                                      stack := (stack s)(sp s := cptr), sp := sp s + 1\<rparr>)
           \<and> cptr \<noteq> NULL \<and> nenv \<noteq> NULL \<and> cptr \<noteq> nenv
           \<and> GET_CODE cptr h' = Inr (code (pc s + 1))
           \<and> GET_ENV cptr h' = Inr nenv
           \<and> lookup 0 nenv h' = Inr cptr
           \<and> GET_NEXT nenv h' = Inr (env s)
           \<and> (\<forall>p. allocated (heap s) p \<longrightarrow> cells h' p = cells (heap s) p)
           \<and> (\<forall>arg e2 h2. extend (HEAP_MAX cfg) arg nenv h' = Inr (e2, h2) \<longrightarrow>
                 lookup 0 e2 h2 = Inr arg \<and> lookup 1 e2 h2 = Inr cptr)"
    by (intro exI [of _ cptr] exI [of _ nenv] exI [of _ "SET_ELM nenv cptr h2"]) blast
next
  assume full: "\<not> (Suc (used (heap s)) < HEAP_MAX cfg
                    \<and> Suc (Suc (used (heap s))) < 2 ^ LENGTH('v))"
  show d: "dispatch cfg code s = Stop (Fault Heap_exhausted)"
  proof (cases "used (heap s) < HEAP_MAX cfg \<and> Suc (used (heap s)) < 2 ^ LENGTH('v)")
    case False
    then have "extend (HEAP_MAX cfg) NULL (env s) (heap s) = Inl Heap_exhausted"
      by (rule extend_full)
    with op show ?thesis by (simp add: dispatch_LDRF)
  next
    case True
    then obtain nenv h1 where
      ext: "extend (HEAP_MAX cfg) NULL (env s) (heap s) = Inr (nenv, h1)"
      using extend_room [of "heap s" "HEAP_MAX cfg" NULL "env s"] by blast
    from extend_Inr(5) [OF ext] full
    have "\<not> (used h1 < HEAP_MAX cfg \<and> Suc (used h1) < 2 ^ LENGTH('v))"
      by simp
    then have "mkclosure (HEAP_MAX cfg) (code (pc s + 1)) nenv h1 = Inl Heap_exhausted"
      by (rule mkclosure_full)
    with op ext show ?thesis by (simp add: dispatch_LDRF)
  qed
  then show "step cfg code s = Stop (Fault Heap_exhausted)"
    by (simp add: step_def)
qed

theorem recursive_closure_ties_knot_witness:
  "(\<exists>s'. decode cfg0 (code_of [7, 5, 11] (pc init_state)) = Some LDRF
        \<and> Suc (used (heap init_state)) < HEAP_MAX cfg0
        \<and> Suc (Suc (used (heap init_state))) < 2 ^ LENGTH(64)
        \<and> step cfg0 (code_of [7, 5, 11]) init_state = Continue s'
        \<and> stack s' (sp s' - 1) = 2 \<and> GET_CODE 2 (heap s') = Inr 5 \<and> GET_ENV 2 (heap s') = Inr 1
        \<and> lookup 0 1 (heap s') = Inr 2
        \<and> GET_NEXT 1 (heap s') = Inr NULL)
   \<and> (\<exists>s'. decode cfg0 (code_of [7, 5, 11] (pc ldrf_state)) = Some LDRF
        \<and> step cfg0 (code_of [7, 5, 11]) ldrf_state = Continue s'
        \<and> stack s' (sp s' - 1) = 3 \<and> GET_CODE 3 (heap s') = Inr 5 \<and> GET_ENV 3 (heap s') = Inr 2
        \<and> lookup 0 2 (heap s') = Inr 3
        \<and> GET_NEXT 2 (heap s') = Inr (env ldrf_state)
        \<and> allocated (heap ldrf_state) 1 \<and> cells (heap s') 1 = cells (heap ldrf_state) 1
        \<and> (\<exists>h2. extend (HEAP_MAX cfg0) 42 2 (heap s') = Inr (4, h2)
              \<and> lookup 0 4 h2 = Inr 42 \<and> lookup 1 4 h2 = Inr 3))
   \<and> (\<not> (Suc (used (heap init_state)) < HEAP_MAX (cfg0\<lparr>HEAP_MAX := 1\<rparr>)
           \<and> Suc (Suc (used (heap init_state))) < 2 ^ LENGTH(64))
        \<and> step (cfg0\<lparr>HEAP_MAX := 1\<rparr>) (code_of [7, 5, 11]) init_state
             = Stop (Fault Heap_exhausted))"
proof -
  let ?code = "code_of [7, 5, 11]"
  have d0: "decode cfg0 (?code (pc init_state)) = Some LDRF"
    by (simp add: decode_def cfg0_def code_of_def init_state_def)
  have r0: "Suc (used (heap init_state)) < HEAP_MAX cfg0
        \<and> Suc (Suc (used (heap init_state))) < 2 ^ LENGTH(64)"
    by (simp add: init_state_def heap0_def cfg0_def)
  obtain s0 where st0: "step cfg0 ?code init_state = Continue s0"
    and top0: "stack s0 (sp s0 - 1) = 2"
    and h0: "GET_CODE 2 (heap s0) = Inr 5" "GET_ENV 2 (heap s0) = Inr 1"
      "lookup 0 1 (heap s0) = Inr 2" "GET_NEXT 1 (heap s0) = Inr NULL"
    using d0 by (simp add: step_decoded init_state_def heap0_def machine_defs lookup_0)
  from recursive_closure_ties_knot [of cfg0 ?code init_state] d0 r0 st0 top0 h0
  have a: "\<exists>s'. decode cfg0 (?code (pc init_state)) = Some LDRF
        \<and> Suc (used (heap init_state)) < HEAP_MAX cfg0
        \<and> Suc (Suc (used (heap init_state))) < 2 ^ LENGTH(64)
        \<and> step cfg0 ?code init_state = Continue s'
        \<and> stack s' (sp s' - 1) = 2 \<and> GET_CODE 2 (heap s') = Inr 5 \<and> GET_ENV 2 (heap s') = Inr 1
        \<and> lookup 0 1 (heap s') = Inr 2
        \<and> GET_NEXT 1 (heap s') = Inr NULL"
    by blast
  have d: "decode cfg0 (?code (pc ldrf_state)) = Some LDRF"
    by (simp add: decode_def cfg0_def code_of_def ldrf_state_def)
  obtain s' where st: "step cfg0 ?code ldrf_state = Continue s'"
    and top: "stack s' (sp s' - 1) = 3" and u: "used (heap s') = 3"
    and h: "GET_CODE 3 (heap s') = Inr 5" "GET_ENV 3 (heap s') = Inr 2"
      "lookup 0 2 (heap s') = Inr 3" "GET_NEXT 2 (heap s') = Inr (env ldrf_state)"
      "cells (heap s') 1 = cells (heap ldrf_state) 1"
    using d by (simp add: step_decoded ldrf_state_def heap1_def machine_defs lookup_0)
  obtain h2 where x: "extend (HEAP_MAX cfg0) 42 2 (heap s') = Inr (4 :: 64 word, h2)"
    and l: "lookup 0 4 h2 = Inr 42" "lookup 1 4 h2 = Inr 3"
    using u h(3) by (simp add: extend_def alloc_cell_def cfg0_def SET_ELM_def SET_NEXT_def
        lookup_0 lookup_pos GET_ELM_def NULL_def)
  have al: "allocated (heap ldrf_state) 1"
    by (simp add: ldrf_state_def heap1_def allocated_def)
  from recursive_closure_ties_knot [of cfg0 ?code ldrf_state] d st top h x l al
  have b: "\<exists>s'. decode cfg0 (?code (pc ldrf_state)) = Some LDRF
        \<and> step cfg0 ?code ldrf_state = Continue s'
        \<and> stack s' (sp s' - 1) = 3 \<and> GET_CODE 3 (heap s') = Inr 5 \<and> GET_ENV 3 (heap s') = Inr 2
        \<and> lookup 0 2 (heap s') = Inr 3
        \<and> GET_NEXT 2 (heap s') = Inr (env ldrf_state)
        \<and> allocated (heap ldrf_state) 1 \<and> cells (heap s') 1 = cells (heap ldrf_state) 1
        \<and> (\<exists>h2. extend (HEAP_MAX cfg0) 42 2 (heap s') = Inr (4, h2)
              \<and> lookup 0 4 h2 = Inr 42 \<and> lookup 1 4 h2 = Inr 3)"
    by blast
  have d1: "decode (cfg0\<lparr>HEAP_MAX := 1\<rparr>) (?code (pc init_state)) = Some LDRF"
    by (simp add: decode_def cfg0_def code_of_def init_state_def)
  have f: "\<not> (Suc (used (heap init_state)) < HEAP_MAX (cfg0\<lparr>HEAP_MAX := 1\<rparr>)
           \<and> Suc (Suc (used (heap init_state))) < 2 ^ LENGTH(64))"
    by simp
  from recursive_closure_ties_knot [of "cfg0\<lparr>HEAP_MAX := 1\<rparr>" ?code init_state] d1 f
  have c: "step (cfg0\<lparr>HEAP_MAX := 1\<rparr>) ?code init_state = Stop (Fault Heap_exhausted)"
    by blast
  from a b c f show ?thesis by blast
qed

subsection \<open>Calls and conditionals\<close>



lemma dispatch_SEL:
  assumes "decode cfg (code (pc s)) = Some SEL"
  shows "dispatch cfg code s =
           Continue (s\<lparr>sp := sp s - 1,
                       dump := (dump s)(dp s := (dump s (dp s))\<lparr>dpc := pc s + 3\<rparr>),
                       dp := dp s + 1,
                       pc := (if stack s (sp s - 1) = 0 then code (pc s + 1)
                              else code (pc s + 2))\<rparr>)"
  using assms by (simp add: dispatch_decoded Let_def add.commute)

lemma dispatch_JOIN:
  assumes "decode cfg (code (pc s)) = Some JOIN"
  shows "dispatch cfg code s = Continue (s\<lparr>dp := dp s - 1, pc := dpc (dump s (dp s - 1))\<rparr>)"
  using assms by (simp add: dispatch_decoded)

text \<open>
  Claim C2. \<open>SEL\<close> always completes the \<open>switch\<close>: it pops the condition, jumps to the
  first operand word when the condition is 0 and to the second for any other condition,
  stores the address after the two operand words in a frame at the top of the dump, and
  leaves the environment alone. Let the branch then run for any number of turns in which
  the dump stays deeper than at the \<open>SEL\<close>, and reach a \<open>JOIN\<close> one frame above that
  depth: that \<open>JOIN\<close> completes the \<open>switch\<close> too, it continues at the stored address,
  whichever branch was taken, and changes nothing but \<open>pc\<close> and \<open>dp\<close>; when the branch is
  a balanced run, the environment is the one that was active before the \<open>SEL\<close>.
\<close>

theorem select_join:
  assumes sel: "decode cfg (code (pc s)) = Some SEL"
  shows "dispatch cfg code s
           = Continue (s\<lparr>sp := sp s - 1,
                         dump := (dump s)(dp s := (dump s (dp s))\<lparr>dpc := pc s + 3\<rparr>),
                         dp := dp s + 1,
                         pc := (if stack s (sp s - 1) = 0 then code (pc s + 1)
                                else code (pc s + 2))\<rparr>)
       \<and> step cfg code s
           = check_bounds cfg
               (s\<lparr>sp := sp s - 1,
                   dump := (dump s)(dp s := (dump s (dp s))\<lparr>dpc := pc s + 3\<rparr>),
                   dp := dp s + 1,
                   pc := (if stack s (sp s - 1) = 0 then code (pc s + 1)
                          else code (pc s + 2))\<rparr>)
       \<and> (step cfg code s = Continue s1 \<and> stays_above cfg code (dp s) n s1
            \<and> run cfg code n s1 = Continue s2 \<and> dp s2 = dp s + 1
            \<and> decode cfg (code (pc s2)) = Some JOIN \<longrightarrow>
              pc s1 = (if stack s (sp s - 1) = 0 then code (pc s + 1) else code (pc s + 2))
            \<and> dp s1 = dp s + 1 \<and> dpc (dump s1 (dp s)) = pc s + 3 \<and> env s1 = env s
            \<and> dispatch cfg code s2 = Continue (s2\<lparr>dp := dp s, pc := pc s + 3\<rparr>)
            \<and> step cfg code s2 = check_bounds cfg (s2\<lparr>dp := dp s, pc := pc s + 3\<rparr>)
            \<and> (balanced cfg code s1 s2 \<longrightarrow> env s2 = env s)
            \<and> (step cfg code s2 = Continue s3 \<longrightarrow>
                  pc s3 = pc s + 3 \<and> dp s3 = dp s \<and> env s3 = env s2
                \<and> (balanced cfg code s1 s2 \<longrightarrow> env s3 = env s)))"
proof -
  let ?s1 = "s\<lparr>sp := sp s - 1,
                 dump := (dump s)(dp s := (dump s (dp s))\<lparr>dpc := pc s + 3\<rparr>),
                 dp := dp s + 1,
                 pc := (if stack s (sp s - 1) = 0 then code (pc s + 1) else code (pc s + 2))\<rparr>"
  have d: "dispatch cfg code s = Continue ?s1"
    using sel by (rule dispatch_SEL)
  then have st: "step cfg code s = check_bounds cfg ?s1"
    by (simp add: step_def)
  have rest: "step cfg code s = Continue s1 \<and> stays_above cfg code (dp s) n s1
            \<and> run cfg code n s1 = Continue s2 \<and> dp s2 = dp s + 1
            \<and> decode cfg (code (pc s2)) = Some JOIN \<longrightarrow>
              pc s1 = (if stack s (sp s - 1) = 0 then code (pc s + 1) else code (pc s + 2))
            \<and> dp s1 = dp s + 1 \<and> dpc (dump s1 (dp s)) = pc s + 3 \<and> env s1 = env s
            \<and> dispatch cfg code s2 = Continue (s2\<lparr>dp := dp s, pc := pc s + 3\<rparr>)
            \<and> step cfg code s2 = check_bounds cfg (s2\<lparr>dp := dp s, pc := pc s + 3\<rparr>)
            \<and> (balanced cfg code s1 s2 \<longrightarrow> env s2 = env s)
            \<and> (step cfg code s2 = Continue s3 \<longrightarrow>
                  pc s3 = pc s + 3 \<and> dp s3 = dp s \<and> env s3 = env s2
                \<and> (balanced cfg code s1 s2 \<longrightarrow> env s3 = env s))"
  proof (rule impI)
    assume run: "step cfg code s = Continue s1 \<and> stays_above cfg code (dp s) n s1
            \<and> run cfg code n s1 = Continue s2 \<and> dp s2 = dp s + 1
            \<and> decode cfg (code (pc s2)) = Some JOIN"
    then have st1: "step cfg code s = Continue s1"
      and above: "stays_above cfg code (dp s) n s1"
      and body: "run cfg code n s1 = Continue s2" and depth: "dp s2 = dp s + 1"
      and join: "decode cfg (code (pc s2)) = Some JOIN"
      by simp_all
    note s1 = step_SEL [OF sel st1]
    have frame: "dump s2 (dp s) = dump s1 (dp s)"
      using above body by (rule stays_above_frame) simp
    have a: "pc s1 = (if stack s (sp s - 1) = 0 then code (pc s + 1) else code (pc s + 2))
       \<and> dp s1 = dp s + 1 \<and> dpc (dump s1 (dp s)) = pc s + 3 \<and> env s1 = env s"
      by (subst (1 2 3 4) s1) simp
    have j: "dispatch cfg code s2 = Continue (s2\<lparr>dp := dp s, pc := pc s + 3\<rparr>)"
      using dispatch_JOIN [of cfg code s2] join depth frame a by simp
    then have sj: "step cfg code s2 = check_bounds cfg (s2\<lparr>dp := dp s, pc := pc s + 3\<rparr>)"
      by (simp add: step_def)
    have e2: "env s2 = env s" if "balanced cfg code s1 s2"
      using balanced_invariant [OF that] a by simp
    have b: "pc s3 = pc s + 3 \<and> dp s3 = dp s \<and> env s3 = env s2"
      if "step cfg code s2 = Continue s3"
      using that sj by (auto simp: check_bounds_Continue)
    show "pc s1 = (if stack s (sp s - 1) = 0 then code (pc s + 1) else code (pc s + 2))
            \<and> dp s1 = dp s + 1 \<and> dpc (dump s1 (dp s)) = pc s + 3 \<and> env s1 = env s
            \<and> dispatch cfg code s2 = Continue (s2\<lparr>dp := dp s, pc := pc s + 3\<rparr>)
            \<and> step cfg code s2 = check_bounds cfg (s2\<lparr>dp := dp s, pc := pc s + 3\<rparr>)
            \<and> (balanced cfg code s1 s2 \<longrightarrow> env s2 = env s)
            \<and> (step cfg code s2 = Continue s3 \<longrightarrow>
                  pc s3 = pc s + 3 \<and> dp s3 = dp s \<and> env s3 = env s2
                \<and> (balanced cfg code s1 s2 \<longrightarrow> env s3 = env s))"
      using a j sj e2 b by (simp only: simp_thms) simp
  qed
  from d st rest show ?thesis
    by (intro conjI)
qed

theorem select_join_witness:
  "(\<exists>s1 s2 s3.
       decode cfg0 (sel_code (pc (sel_state 0))) = Some SEL
     \<and> step cfg0 sel_code (sel_state 0) = Continue s1
     \<and> stays_above cfg0 sel_code (dp (sel_state 0)) 1 s1
     \<and> run cfg0 sel_code 1 s1 = Continue s2
     \<and> dp s2 = dp (sel_state 0) + 1
     \<and> decode cfg0 (sel_code (pc s2)) = Some JOIN
     \<and> step cfg0 sel_code s2 = Continue s3
     \<and> balanced cfg0 sel_code s1 s2
     \<and> pc s1 = 7 \<and> pc s3 = 5 \<and> env s3 = env (sel_state 0) \<and> dp s3 = 0)
   \<and> (\<exists>s1 s2 s3.
       decode cfg0 (sel_code (pc (sel_state 5))) = Some SEL
     \<and> step cfg0 sel_code (sel_state 5) = Continue s1
     \<and> stays_above cfg0 sel_code (dp (sel_state 5)) 1 s1
     \<and> run cfg0 sel_code 1 s1 = Continue s2
     \<and> dp s2 = dp (sel_state 5) + 1
     \<and> decode cfg0 (sel_code (pc s2)) = Some JOIN
     \<and> step cfg0 sel_code s2 = Continue s3
     \<and> balanced cfg0 sel_code s1 s2
     \<and> pc s1 = 10 \<and> pc s3 = 5 \<and> env s3 = env (sel_state 5) \<and> dp s3 = 0)"
proof -
  have d1: "decode cfg0 (sel_code (pc (sel_state c))) = Some SEL" for c
    by (simp add: sel_code_def sel_state_def decode_def cfg0_def code_of_def)
  have then_branch: "\<exists>s1 s2 s3.
       step cfg0 sel_code (sel_state 0) = Continue s1
     \<and> stays_above cfg0 sel_code (dp (sel_state 0)) 1 s1
     \<and> run cfg0 sel_code 1 s1 = Continue s2
     \<and> dp s2 = dp (sel_state 0) + 1
     \<and> decode cfg0 (sel_code (pc s2)) = Some JOIN
     \<and> step cfg0 sel_code s2 = Continue s3
     \<and> balanced cfg0 sel_code s1 s2
     \<and> pc s1 = 7 \<and> pc s3 = 5 \<and> env s3 = env (sel_state 0) \<and> dp s3 = 0"
  proof -
    let ?s = "sel_state 0"
    let ?s1 = "?s\<lparr>sp := 0, dump := dump0(0 := \<lparr>dpc = 5, denv = 0\<rparr>), dp := 1, pc := 7\<rparr>"
    let ?s2 = "?s1\<lparr>pc := 9, stack := (stack ?s1)(0 := 1), sp := 1\<rparr>"
    let ?s3 = "?s2\<lparr>dp := 0, pc := 5\<rparr>"
    have 1: "step cfg0 sel_code ?s = Continue ?s1"
      by (simp add: sel_code_def sel_state_def dump0_def stack0_def machine_defs)
    have d1': "decode cfg0 (sel_code (pc ?s1)) = Some LDC"
      by (simp add: sel_code_def decode_def cfg0_def code_of_def)
    have 2: "step cfg0 sel_code ?s1 = Continue ?s2"
      by (simp add: sel_code_def sel_state_def machine_defs)
    have d2: "decode cfg0 (sel_code (pc ?s2)) = Some JOIN"
      by (simp add: sel_code_def decode_def cfg0_def code_of_def)
    have 3: "step cfg0 sel_code ?s2 = Continue ?s3"
      by (simp add: sel_code_def sel_state_def machine_defs)
    have r: "run cfg0 sel_code 1 ?s1 = Continue ?s2"
      using 2 by simp
    have a: "stays_above cfg0 sel_code (dp ?s) 1 ?s1"
      using 2 by (simp add: sel_state_def)
    have dp: "dp ?s2 = dp ?s + 1"
      by (simp add: sel_state_def)
    have b: "balanced cfg0 sel_code ?s1 ?s2"
      by (rule balanced.plain [OF d1' _ 2 balanced.finished]) simp
    from select_join [of cfg0 sel_code ?s ?s1 1 ?s2 ?s3] d1 [of 0]
    have "step cfg0 sel_code ?s = Continue ?s1 \<and> stays_above cfg0 sel_code (dp ?s) 1 ?s1
            \<and> run cfg0 sel_code 1 ?s1 = Continue ?s2 \<and> dp ?s2 = dp ?s + 1
            \<and> decode cfg0 (sel_code (pc ?s2)) = Some JOIN \<Longrightarrow>
          balanced cfg0 sel_code ?s1 ?s2 \<Longrightarrow> step cfg0 sel_code ?s2 = Continue ?s3 \<Longrightarrow>
          pc ?s3 = pc ?s + 3 \<and> env ?s3 = env ?s"
      by blast
    with 1 a r dp d2 3 b have k: "pc ?s3 = pc ?s + 3 \<and> env ?s3 = env ?s"
      by blast
    have v: "pc ?s1 = 7 \<and> pc ?s + 3 = 5 \<and> dp ?s3 = 0"
      by (simp add: sel_state_def)
    from 1 a r dp d2 3 b k v
    show ?thesis
      by (intro exI [of _ ?s1] exI [of _ ?s2] exI [of _ ?s3]) (simp only: simp_thms)
  qed
  have else_branch: "\<exists>s1 s2 s3.
       step cfg0 sel_code (sel_state 5) = Continue s1
     \<and> stays_above cfg0 sel_code (dp (sel_state 5)) 1 s1
     \<and> run cfg0 sel_code 1 s1 = Continue s2
     \<and> dp s2 = dp (sel_state 5) + 1
     \<and> decode cfg0 (sel_code (pc s2)) = Some JOIN
     \<and> step cfg0 sel_code s2 = Continue s3
     \<and> balanced cfg0 sel_code s1 s2
     \<and> pc s1 = 10 \<and> pc s3 = 5 \<and> env s3 = env (sel_state 5) \<and> dp s3 = 0"
  proof -
    let ?s = "sel_state 5"
    let ?s1 = "?s\<lparr>sp := 0, dump := dump0(0 := \<lparr>dpc = 5, denv = 0\<rparr>), dp := 1, pc := 10\<rparr>"
    let ?s2 = "?s1\<lparr>pc := 12, stack := (stack ?s1)(0 := 2), sp := 1\<rparr>"
    let ?s3 = "?s2\<lparr>dp := 0, pc := 5\<rparr>"
    have 1: "step cfg0 sel_code ?s = Continue ?s1"
      by (simp add: sel_code_def sel_state_def dump0_def stack0_def machine_defs)
    have d1': "decode cfg0 (sel_code (pc ?s1)) = Some LDC"
      by (simp add: sel_code_def decode_def cfg0_def code_of_def)
    have 2: "step cfg0 sel_code ?s1 = Continue ?s2"
      by (simp add: sel_code_def sel_state_def machine_defs)
    have d2: "decode cfg0 (sel_code (pc ?s2)) = Some JOIN"
      by (simp add: sel_code_def decode_def cfg0_def code_of_def)
    have 3: "step cfg0 sel_code ?s2 = Continue ?s3"
      by (simp add: sel_code_def sel_state_def machine_defs)
    have r: "run cfg0 sel_code 1 ?s1 = Continue ?s2"
      using 2 by simp
    have a: "stays_above cfg0 sel_code (dp ?s) 1 ?s1"
      using 2 by (simp add: sel_state_def)
    have dp: "dp ?s2 = dp ?s + 1"
      by (simp add: sel_state_def)
    have b: "balanced cfg0 sel_code ?s1 ?s2"
      by (rule balanced.plain [OF d1' _ 2 balanced.finished]) simp
    from select_join [of cfg0 sel_code ?s ?s1 1 ?s2 ?s3] d1 [of 5]
    have "step cfg0 sel_code ?s = Continue ?s1 \<and> stays_above cfg0 sel_code (dp ?s) 1 ?s1
            \<and> run cfg0 sel_code 1 ?s1 = Continue ?s2 \<and> dp ?s2 = dp ?s + 1
            \<and> decode cfg0 (sel_code (pc ?s2)) = Some JOIN \<Longrightarrow>
          balanced cfg0 sel_code ?s1 ?s2 \<Longrightarrow> step cfg0 sel_code ?s2 = Continue ?s3 \<Longrightarrow>
          pc ?s3 = pc ?s + 3 \<and> env ?s3 = env ?s"
      by blast
    with 1 a r dp d2 3 b have k: "pc ?s3 = pc ?s + 3 \<and> env ?s3 = env ?s"
      by blast
    have v: "pc ?s1 = 10 \<and> pc ?s + 3 = 5 \<and> dp ?s3 = 0"
      by (simp add: sel_state_def)
    from 1 a r dp d2 3 b k v
    show ?thesis
      by (intro exI [of _ ?s1] exI [of _ ?s2] exI [of _ ?s3]) (simp only: simp_thms)
  qed
  from then_branch else_branch d1 show ?thesis by blast
qed

end
